theory Spec2Isabelle
  imports Main "HOL-Library.AList"
begin

section \<open>Data model\<close>

text \<open>
  The persistent cache engine of package flat-cache: class \<open>FlatCache\<close> with its
  recency tracker \<open>FastLRU\<close>. Keys are strings; time stamps and durations are
  milliseconds, and they, the capacities and the sizes are natural numbers; the
  snapshot text is a string. A JavaScript \<open>Map\<close> keeps its
  entries in insertion order, replaces a value in place and reports its \<open>size\<close>;
  it is an association list with \<open>AList.update\<close>, \<open>AList.delete\<close>, \<open>map_of\<close>
  and \<open>length\<close>.
\<close>

type_synonym key = string
type_synonym timestamp = nat
type_synonym path = string
type_synonym addr = nat

text \<open>A cache entry \<open>{ key, value, expires }\<close>, as \<open>items\<close> lists it and the file holds it.\<close>

record 'v item =
  item_key :: key
  item_value :: 'v
  item_expires :: "timestamp option"

datatype error =
    ENOENT path
  | EISDIR path
  | EACCES path
  | DecodeError
  | NotExist path

text \<open>The notifications of \<open>FlatCacheEvents\<close>, each with the argument \<open>emit\<close> gives it.\<close>

datatype event = SAVE | LOAD | DELETE key | CLEAR | DESTROY | ERROR error | EXPIRED

subsection \<open>The Memory Store\<close>

text \<open>
  Modelled from the spec: the Memory Store, class \<open>CacheableMemory\<close> of package
  \<open>cacheable\<close>, which \<open>FlatCache\<close> imports and which is not among the sources.
  The spec gives its contract: \<open>set(key, value, ttl?)\<close>, \<open>get(key)\<close> returning the
  value or absent, \<open>delete(key)\<close>, \<open>clear()\<close>, \<open>items\<close> (all live entries) and
  \<open>keys\<close> (the live keys); keys are unique; an entry whose expiration lies in the
  past is not observable. The store is configured at construction with a
  time-to-live, a clone flag, a capacity bound and an expiration-sweep interval: the
  four options the constructor of \<open>FlatCache\<close> hands to it. Values are immutable
  here, so the clone flag changes nothing, and the sweep removes only entries that
  \<open>get\<close>, \<open>items\<close> and \<open>keys\<close> do not show anyway; both are kept as configured.
\<close>

record 'v memory =
  mem_entries :: "(key \<times> 'v \<times> timestamp option) list"
  mem_ttl :: "nat option"
  mem_useClone :: "bool option"
  mem_lruSize :: "nat option"
  mem_checkInterval :: "nat option"

text \<open>Modelled from the spec: an entry is expired when its expiration lies in the past.\<close>

definition hasExpired :: "timestamp \<Rightarrow> timestamp option \<Rightarrow> bool" where
  "hasExpired now e = (case e of None \<Rightarrow> False | Some t \<Rightarrow> t < now)"

text \<open>
  Modelled from the spec: a new, empty Memory Store with its configuration. A
  time-to-live of 0 sets no default.
\<close>

definition mem_new :: "nat option \<Rightarrow> bool option \<Rightarrow> nat option \<Rightarrow> nat option \<Rightarrow> 'v memory" where
  "mem_new ttl useClone lruSize checkInterval =
     \<lparr>mem_entries = [], mem_ttl = (if ttl = Some 0 then None else ttl),
      mem_useClone = useClone, mem_lruSize = lruSize, mem_checkInterval = checkInterval\<rparr>"

text \<open>
  Modelled from the spec: the capacity bound of the Memory Store, the number of
  entries it holds at most; 0 is no bound, as is a store configured without one.
\<close>

definition mem_capacity :: "'v memory \<Rightarrow> nat" where
  "mem_capacity m = (case mem_lruSize m of Some n \<Rightarrow> n | None \<Rightarrow> 0)"

text \<open>
  Modelled from the spec: the eviction of the Memory Store. The spec leaves the
  policy to the store; here the entry that entered the store first is deleted.
\<close>

definition mem_evict ::
  "(key \<times> 'v \<times> timestamp option) list \<Rightarrow> (key \<times> 'v \<times> timestamp option) list" where
  "mem_evict es = (case es of [] \<Rightarrow> [] | x # xs \<Rightarrow> AList.delete (fst x) es)"

text \<open>
  Modelled from the spec: an entry enters the Memory Store. A key the store holds
  keeps its place and takes the new value and expiration. A new key is added; when
  a capacity bound is set and the store is full, one entry is evicted to make room.
\<close>

definition mem_store :: "'v memory \<Rightarrow> key \<Rightarrow> 'v \<Rightarrow> timestamp option \<Rightarrow> 'v memory" where
  "mem_store m k v expires =
     (let es = (if 0 < mem_capacity m \<and> map_of (mem_entries m) k = None \<and>
                   mem_capacity m \<le> length (mem_entries m)
                then mem_evict (mem_entries m) else mem_entries m)
      in m\<lparr>mem_entries := AList.update k (v, expires) es\<rparr>)"

text \<open>
  Modelled from the spec: \<open>set(key, value, ttl?)\<close> of the Memory Store. The entry
  expires \<open>ttl\<close> after now; without a \<open>ttl\<close> the store's default applies; without
  either it never expires.
\<close>

definition mem_set :: "'v memory \<Rightarrow> timestamp \<Rightarrow> key \<Rightarrow> 'v \<Rightarrow> nat option \<Rightarrow> 'v memory" where
  "mem_set m now k v ttl =
     mem_store m k v
       (case ttl of Some d \<Rightarrow> Some (now + d)
        | None \<Rightarrow> (case mem_ttl m of Some d \<Rightarrow> Some (now + d) | None \<Rightarrow> None))"

text \<open>
  Modelled from the spec: \<open>set(key, value, { expire })\<close> of the Memory Store, which
  \<open>loadFile\<close> calls with the entry's original expiration.
\<close>

definition mem_set_expire :: "'v memory \<Rightarrow> key \<Rightarrow> 'v \<Rightarrow> timestamp option \<Rightarrow> 'v memory" where
  "mem_set_expire m k v expire = mem_store m k v expire"

text \<open>Modelled from the spec: \<open>get(key)\<close> of the Memory Store; \<open>None\<close> is absent.\<close>

definition mem_get :: "'v memory \<Rightarrow> timestamp \<Rightarrow> key \<Rightarrow> 'v option" where
  "mem_get m now k =
     (case map_of (mem_entries m) k of
        None \<Rightarrow> None
      | Some (v, e) \<Rightarrow> if hasExpired now e then None else Some v)"

text \<open>Modelled from the spec: \<open>delete(key)\<close> of the Memory Store.\<close>

definition mem_delete :: "'v memory \<Rightarrow> key \<Rightarrow> 'v memory" where
  "mem_delete m k = m\<lparr>mem_entries := AList.delete k (mem_entries m)\<rparr>"

text \<open>Modelled from the spec: \<open>clear()\<close> of the Memory Store.\<close>

definition mem_clear :: "'v memory \<Rightarrow> 'v memory" where
  "mem_clear m = m\<lparr>mem_entries := []\<rparr>"

text \<open>Modelled from the spec: an entry of the Memory Store as the item that \<open>items\<close> lists.\<close>

definition to_item :: "key \<times> 'v \<times> timestamp option \<Rightarrow> 'v item" where
  "to_item = (\<lambda>(k, v, e). \<lparr>item_key = k, item_value = v, item_expires = e\<rparr>)"

text \<open>Modelled from the spec: \<open>items\<close> of the Memory Store, the live entries.\<close>

definition mem_items :: "'v memory \<Rightarrow> timestamp \<Rightarrow> 'v item list" where
  "mem_items m now = map to_item (filter (\<lambda>(k, v, e). \<not> hasExpired now e) (mem_entries m))"

text \<open>Modelled from the spec: \<open>keys\<close> of the Memory Store, the live keys.\<close>

definition mem_keys :: "'v memory \<Rightarrow> timestamp \<Rightarrow> key list" where
  "mem_keys m now = map item_key (mem_items m now)"

subsection \<open>The file system\<close>

text \<open>
  The calls of \<open>node:fs\<close> the cache makes, on a disk that holds files and
  directories by path. A path listed in \<open>readonly\<close> refuses every write, creation
  and removal: this is how a failing write enters the model. \<open>path.resolve\<close> is
  taken relative to a fixed working directory and leaves the path as it is.
\<close>

record filesystem =
  files :: "(path \<times> string) list"
  dirs :: "path list"
  readonly :: "path list"

definition resolve :: "path \<Rightarrow> path" where
  "resolve p = p"

definition existsSync :: "filesystem \<Rightarrow> path \<Rightarrow> bool" where
  "existsSync fs p = (map_of (files fs) p \<noteq> None \<or> p \<in> set (dirs fs))"

definition readFileSync :: "filesystem \<Rightarrow> path \<Rightarrow> error + string" where
  "readFileSync fs p =
     (case map_of (files fs) p of
        Some d \<Rightarrow> Inr d
      | None \<Rightarrow> if p \<in> set (dirs fs) then Inl (EISDIR p) else Inl (ENOENT p))"

definition mkdirSync :: "filesystem \<Rightarrow> path \<Rightarrow> error + filesystem" where
  "mkdirSync fs p =
     (if p \<in> set (readonly fs) then Inl (EACCES p)
      else if p \<in> set (dirs fs) then Inr fs
      else Inr (fs\<lparr>dirs := dirs fs @ [p]\<rparr>))"

definition writeFileSync :: "filesystem \<Rightarrow> path \<Rightarrow> string \<Rightarrow> error + filesystem" where
  "writeFileSync fs p d =
     (if p \<in> set (readonly fs) then Inl (EACCES p)
      else if p \<in> set (dirs fs) then Inl (EISDIR p)
      else Inr (fs\<lparr>files := AList.update p d (files fs)\<rparr>))"

text \<open>\<open>q\<close> is \<open>p\<close> itself or lies below the directory \<open>p\<close>.\<close>

definition below :: "path \<Rightarrow> path \<Rightarrow> bool" where
  "below p q = (q = p \<or> take (Suc (length p)) q = p @ ''/'')"

text \<open>\<open>fs.rmSync(p, { recursive: true, force: true })\<close>: a missing path is no error.\<close>

definition rmSync_rf :: "filesystem \<Rightarrow> path \<Rightarrow> error + filesystem" where
  "rmSync_rf fs p =
     (if p \<in> set (readonly fs) then Inl (EACCES p)
      else Inr (fs\<lparr>files := filter (\<lambda>(q, d). \<not> below p q) (files fs),
                   dirs := filter (\<lambda>q. \<not> below p q) (dirs fs)\<rparr>))"

text \<open>\<open>fs.rmSync(p)\<close> on a path that \<open>existsSync\<close> has found.\<close>

definition rmSync :: "filesystem \<Rightarrow> path \<Rightarrow> error + filesystem" where
  "rmSync fs p =
     (if p \<in> set (readonly fs) then Inl (EACCES p)
      else if p \<in> set (dirs fs) then Inl (EISDIR p)
      else Inr (fs\<lparr>files := AList.delete p (files fs)\<rparr>))"

section \<open>The Recency Tracker: class FastLRU\<close>

text \<open>
  \<open>LRUNode\<close> objects live on a heap and are named by their address; \<open>prev\<close> and
  \<open>next\<close> hold an address or \<open>null\<close>. The heap is total: \<open>new LRUNode\<close> takes the
  next unused address \<open>fresh\<close>, and nothing is ever freed. The \<open>Map\<close> of the class,
  its field \<open>cache\<close>, is \<open>lru_map\<close>.
\<close>

record LRUNode =
  node_key :: key
  node_prev :: "addr option"
  node_next :: "addr option"

record FastLRU =
  capacity :: nat
  lru_map :: "(key \<times> addr) list"
  head :: "addr option"
  tail :: "addr option"
  heap :: "addr \<Rightarrow> LRUNode"
  fresh :: addr

definition new_LRUNode :: "key \<Rightarrow> LRUNode" where
  "new_LRUNode k = \<lparr>node_key = k, node_prev = None, node_next = None\<rparr>"

definition new_FastLRU :: "nat \<Rightarrow> FastLRU" where
  "new_FastLRU cap =
     \<lparr>capacity = cap, lru_map = [], head = None, tail = None,
      heap = (\<lambda>a. new_LRUNode []), fresh = 0\<rparr>"

definition set_next :: "FastLRU \<Rightarrow> addr \<Rightarrow> addr option \<Rightarrow> FastLRU" where
  "set_next l a n = l\<lparr>heap := (heap l)(a := (heap l a)\<lparr>node_next := n\<rparr>)\<rparr>"

definition set_prev :: "FastLRU \<Rightarrow> addr \<Rightarrow> addr option \<Rightarrow> FastLRU" where
  "set_prev l a p = l\<lparr>heap := (heap l)(a := (heap l a)\<lparr>node_prev := p\<rparr>)\<rparr>"

definition addToFront :: "FastLRU \<Rightarrow> addr \<Rightarrow> FastLRU" where
  "addToFront l node =
     (let l1 = set_next l node (head l);
          l2 = set_prev l1 node None;
          l3 = (case head l2 of Some h \<Rightarrow> set_prev l2 h (Some node) | None \<Rightarrow> l2);
          l4 = l3\<lparr>head := Some node\<rparr>
      in case tail l4 of None \<Rightarrow> l4\<lparr>tail := Some node\<rparr> | Some t \<Rightarrow> l4)"

definition removeNode :: "FastLRU \<Rightarrow> addr \<Rightarrow> FastLRU" where
  "removeNode l node =
     (let l1 = (case node_prev (heap l node) of
                  Some p \<Rightarrow> set_next l p (node_next (heap l node))
                | None \<Rightarrow> l\<lparr>head := node_next (heap l node)\<rparr>)
      in case node_next (heap l1 node) of
           Some n \<Rightarrow> set_prev l1 n (node_prev (heap l1 node))
         | None \<Rightarrow> l1\<lparr>tail := node_prev (heap l1 node)\<rparr>)"

definition moveToFront :: "FastLRU \<Rightarrow> addr \<Rightarrow> FastLRU" where
  "moveToFront l node =
     (if head l = Some node then l else addToFront (removeNode l node) node)"

definition removeLRU :: "FastLRU \<Rightarrow> FastLRU" where
  "removeLRU l =
     (case tail l of
        None \<Rightarrow> l
      | Some t \<Rightarrow>
          removeNode (l\<lparr>lru_map := AList.delete (node_key (heap l t)) (lru_map l)\<rparr>) t)"

definition touch :: "FastLRU \<Rightarrow> key \<Rightarrow> FastLRU" where
  "touch l k =
     (case map_of (lru_map l) k of
        Some node \<Rightarrow> moveToFront l node
      | None \<Rightarrow>
          (let node = fresh l;
               l1 = l\<lparr>heap := (heap l)(node := new_LRUNode k), fresh := Suc node\<rparr>;
               l2 = l1\<lparr>lru_map := AList.update k node (lru_map l1)\<rparr>;
               l3 = addToFront l2 node
           in if length (lru_map l3) > capacity l3 then removeLRU l3 else l3))"

definition has :: "FastLRU \<Rightarrow> key \<Rightarrow> bool" where
  "has l k = (map_of (lru_map l) k \<noteq> None)"

definition lru_delete :: "FastLRU \<Rightarrow> key \<Rightarrow> FastLRU" where
  "lru_delete l k =
     (case map_of (lru_map l) k of
        None \<Rightarrow> l
      | Some node \<Rightarrow> (let l1 = removeNode l node in l1\<lparr>lru_map := AList.delete k (lru_map l1)\<rparr>))"

definition lru_clear :: "FastLRU \<Rightarrow> FastLRU" where
  "lru_clear l = l\<lparr>lru_map := [], head := None, tail := None\<rparr>"

text \<open>
  The keys of the tracker from most to least recently used: the walk along \<open>next\<close>
  from \<open>head\<close>, at most \<open>n\<close> nodes long.
\<close>

fun walk :: "(addr \<Rightarrow> LRUNode) \<Rightarrow> addr option \<Rightarrow> nat \<Rightarrow> addr list" where
  "walk h None n = []"
| "walk h (Some a) 0 = []"
| "walk h (Some a) (Suc n) = a # walk h (node_next (h a)) n"

definition lru_keys :: "FastLRU \<Rightarrow> key list" where
  "lru_keys l = map (\<lambda>a. node_key (heap l a)) (walk (heap l) (head l) (length (lru_map l)))"

subsection \<open>The invariant of the tracker\<close>

text \<open>
  The nodes \<open>as\<close>, from most to least recently used, form a doubly linked list on
  the heap: \<open>dll h p as n\<close> says that each node of \<open>as\<close> points back to the node
  before it (the first to \<open>p\<close>) and on to the node after it (the last to \<open>n\<close>).
\<close>

fun dll :: "(addr \<Rightarrow> LRUNode) \<Rightarrow> addr option \<Rightarrow> addr list \<Rightarrow> addr option \<Rightarrow> bool" where
  "dll h p [] n = True"
| "dll h p (a # as) n =
     (node_prev (h a) = p \<and>
      node_next (h a) = (case as of [] \<Rightarrow> n | b # bs \<Rightarrow> Some b) \<and>
      dll h (Some a) as n)"

definition first_of :: "addr list \<Rightarrow> addr option \<Rightarrow> addr option" where
  "first_of as d = (case as of [] \<Rightarrow> d | a # bs \<Rightarrow> Some a)"

definition last_of :: "addr list \<Rightarrow> addr option \<Rightarrow> addr option" where
  "last_of as d = (if as = [] then d else Some (last as))"

definition lru_list :: "FastLRU \<Rightarrow> addr list \<Rightarrow> bool" where
  "lru_list l as =
     (dll (heap l) None as None \<and> distinct as \<and>
      head l = first_of as None \<and> tail l = last_of as None)"

definition keys_of :: "FastLRU \<Rightarrow> addr list \<Rightarrow> key list" where
  "keys_of l as = map (\<lambda>a. node_key (heap l a)) as"

text \<open>
  The \<open>Map\<close> holds exactly the nodes of the list, each under its own key, and every
  node has been allocated.
\<close>

definition lru_struct :: "FastLRU \<Rightarrow> addr list \<Rightarrow> bool" where
  "lru_struct l as =
     (lru_list l as \<and>
      distinct (map fst (lru_map l)) \<and>
      (\<forall>k a. map_of (lru_map l) k = Some a \<longleftrightarrow> a \<in> set as \<and> node_key (heap l a) = k) \<and>
      length (lru_map l) = length as \<and>
      (\<forall>a \<in> set as. a < fresh l))"

definition lru_inv :: "FastLRU \<Rightarrow> addr list \<Rightarrow> bool" where
  "lru_inv l as = (lru_struct l as \<and> length as \<le> capacity l)"

definition wf_lru :: "FastLRU \<Rightarrow> bool" where
  "wf_lru l = (\<exists>as. lru_inv l as)"

section \<open>The cache: class FlatCache\<close>

text \<open>
  The fields of the class, and \<open>events\<close>, the notifications emitted so far
  (\<open>emit\<close> of the base class \<open>Hookified\<close> appends to it). A timer handle holds
  the duration the timer was armed with; \<open>None\<close> is \<open>undefined\<close>.
\<close>

record 'v FlatCache =
  cache :: "'v memory"
  cacheDir :: path
  cacheId :: string
  persistInterval :: nat
  persistTimer :: "nat option"
  changesSinceLastSave :: bool
  parse :: "string \<Rightarrow> error + 'v item list"
  stringify :: "'v item list \<Rightarrow> string"
  lruCache :: FastLRU
  serializationCache :: "string option"
  serializationCacheValid :: bool
  pendingWrites :: "(key \<times> 'v) list"
  batchWriteTimer :: "nat option"
  batchWriteSize :: nat
  batchWriteDelay :: nat
  events :: "event list"

record 'v FlatCacheOptions =
  opt_ttl :: "nat option"
  opt_useClone :: "bool option"
  opt_lruSize :: "nat option"
  opt_expirationInterval :: "nat option"
  opt_persistInterval :: "nat option"
  opt_cacheDir :: "path option"
  opt_cacheId :: "string option"
  opt_deserialize :: "(string \<Rightarrow> error + 'v item list) option"
  opt_serialize :: "('v item list \<Rightarrow> string) option"
  opt_inMemoryLruSize :: "nat option"
  opt_batchWriteSize :: "nat option"
  opt_batchWriteDelay :: "nat option"

definition emit :: "event \<Rightarrow> 'v FlatCache \<Rightarrow> 'v FlatCache" where
  "emit e c = c\<lparr>events := events c @ [e]\<rparr>"

definition startAutoPersist :: "'v FlatCache \<Rightarrow> 'v FlatCache" where
  "startAutoPersist c =
     (if persistInterval c > 0 then
        (let c1 = (case persistTimer c of Some t \<Rightarrow> c\<lparr>persistTimer := None\<rparr> | None \<Rightarrow> c)
         in c1\<lparr>persistTimer := Some (persistInterval c1)\<rparr>)
      else c)"

definition stopAutoPersist :: "'v FlatCache \<Rightarrow> 'v FlatCache" where
  "stopAutoPersist c = (case persistTimer c of Some t \<Rightarrow> c\<lparr>persistTimer := None\<rparr> | None \<Rightarrow> c)"

text \<open>
  The constructor. \<open>flatted_parse\<close> and \<open>flatted_stringify\<close> stand for \<open>parse\<close> and
  \<open>stringify\<close> of the library \<open>flatted\<close>, the default codec. An option counts as
  given by the test the constructor makes: truthiness for \<open>cacheDir\<close>, \<open>cacheId\<close>
  and \<open>persistInterval\<close>, \<open>??\<close> for the tracker capacity and the batch settings.
\<close>

definition new_FlatCache ::
  "(string \<Rightarrow> error + 'v item list) \<Rightarrow> ('v item list \<Rightarrow> string) \<Rightarrow> 'v FlatCacheOptions
     \<Rightarrow> 'v FlatCache" where
  "new_FlatCache flatted_parse flatted_stringify options =
     (let c0 = \<lparr>cache = mem_new (opt_ttl options) (opt_useClone options) (opt_lruSize options)
                          (opt_expirationInterval options),
                cacheDir = ''.cache'', cacheId = ''cache1'',
                persistInterval = 0, persistTimer = None,
                changesSinceLastSave = False,
                parse = flatted_parse, stringify = flatted_stringify,
                lruCache = new_FastLRU (case opt_inMemoryLruSize options of Some n \<Rightarrow> n | None \<Rightarrow> 1000),
                serializationCache = None, serializationCacheValid = False,
                pendingWrites = [], batchWriteTimer = None,
                batchWriteSize = (case opt_batchWriteSize options of Some n \<Rightarrow> n | None \<Rightarrow> 10),
                batchWriteDelay = (case opt_batchWriteDelay options of Some n \<Rightarrow> n | None \<Rightarrow> 100),
                events = []\<rparr>;
          c1 = (case opt_cacheDir options of
                  Some d \<Rightarrow> if d \<noteq> [] then c0\<lparr>cacheDir := d\<rparr> else c0 | None \<Rightarrow> c0);
          c2 = (case opt_cacheId options of
                  Some i \<Rightarrow> if i \<noteq> [] then c1\<lparr>cacheId := i\<rparr> else c1 | None \<Rightarrow> c1);
          c3 = (case opt_persistInterval options of
                  Some n \<Rightarrow> if n \<noteq> 0 then startAutoPersist (c2\<lparr>persistInterval := n\<rparr>) else c2
                | None \<Rightarrow> c2);
          c4 = (case opt_deserialize options of Some f \<Rightarrow> c3\<lparr>parse := f\<rparr> | None \<Rightarrow> c3)
      in case opt_serialize options of Some f \<Rightarrow> c4\<lparr>stringify := f\<rparr> | None \<Rightarrow> c4)"

definition cacheFilePath :: "'v FlatCache \<Rightarrow> path" where
  "cacheFilePath c = resolve (cacheDir c @ ''/'' @ cacheId c)"

definition cacheDirPath :: "'v FlatCache \<Rightarrow> path" where
  "cacheDirPath c = resolve (cacheDir c)"

definition items :: "'v FlatCache \<Rightarrow> timestamp \<Rightarrow> 'v item list" where
  "items c now = mem_items (cache c) now"

definition keys :: "'v FlatCache \<Rightarrow> timestamp \<Rightarrow> key list" where
  "keys c now = mem_keys (cache c) now"

text \<open>\<open>all()\<close>: the object that maps each live key to its value.\<close>

definition all_entries :: "'v FlatCache \<Rightarrow> timestamp \<Rightarrow> (key \<times> 'v) list" where
  "all_entries c now =
     foldl (\<lambda>result it. AList.update (item_key it) (item_value it) result) [] (mem_items (cache c) now)"

subsection \<open>Loading\<close>

text \<open>
  A call that can throw returns \<open>Inl\<close> with the error and the state reached at the
  throw, or \<open>Inr\<close> with the state it returns in.
\<close>

definition loadFile :: "'v FlatCache \<Rightarrow> filesystem \<Rightarrow> path \<Rightarrow> (error \<times> 'v FlatCache) + 'v FlatCache" where
  "loadFile c fs pathToFile =
     (if existsSync fs pathToFile then
        (case readFileSync fs pathToFile of
           Inl e \<Rightarrow> Inl (e, c)
         | Inr data \<Rightarrow>
             (case parse c data of
                Inl e \<Rightarrow> Inl (e, c)
              | Inr its \<Rightarrow>
                  Inr ((c\<lparr>cache := foldl (\<lambda>m it. mem_set_expire m (item_key it) (item_value it)
                                              (item_expires it)) (cache c) its\<rparr>)
                        \<lparr>changesSinceLastSave := True\<rparr>)))
      else Inr c)"

definition load :: "'v FlatCache \<Rightarrow> filesystem \<Rightarrow> string option \<Rightarrow> path option \<Rightarrow> 'v FlatCache" where
  "load c fs cacheId' cacheDir' =
     (let filePath = resolve ((case cacheDir' of Some d \<Rightarrow> d | None \<Rightarrow> cacheDir c) @ ''/'' @
                              (case cacheId' of Some i \<Rightarrow> i | None \<Rightarrow> cacheId c))
      in case loadFile c fs filePath of
           Inr c1 \<Rightarrow> emit LOAD c1
         | Inl (e, c1) \<Rightarrow> emit (ERROR e) c1)"

text \<open>
  \<open>loadFileStream\<close>: the calls made to the callbacks \<open>onProgress\<close>, \<open>onEnd\<close> and
  \<open>onError\<close> are returned in order. The stream delivers the file in chunks of
  \<open>chunk\<close> characters; the handlers of the stream run one after the other.
\<close>

datatype callback = OnProgress nat nat | OnEnd | OnError error

fun chunks :: "nat \<Rightarrow> nat \<Rightarrow> string \<Rightarrow> string list" where
  "chunks n 0 s = []"
| "chunks n (Suc fuel) s = (if s = [] \<or> n = 0 then [] else take n s # chunks n fuel (drop n s))"

fun progress :: "nat \<Rightarrow> nat \<Rightarrow> string list \<Rightarrow> callback list" where
  "progress loaded whole [] = []"
| "progress loaded whole (ch # chs) =
     OnProgress (loaded + length ch) whole # progress (loaded + length ch) whole chs"

definition loadFileStream ::
  "'v FlatCache \<Rightarrow> filesystem \<Rightarrow> path \<Rightarrow> nat \<Rightarrow> bool
     \<Rightarrow> (error \<times> 'v FlatCache \<times> callback list) + ('v FlatCache \<times> callback list)" where
  "loadFileStream c fs pathToFile chunk onError =
     (if existsSync fs pathToFile then
        (case readFileSync fs pathToFile of
           Inl e \<Rightarrow> Inr (emit (ERROR e) c, if onError then [OnError e] else [])
         | Inr data \<Rightarrow>
             (let calls = progress 0 (length data) (chunks chunk (length data) data);
                  streamData = concat (chunks chunk (length data) data)
              in case parse c streamData of
                   Inl e \<Rightarrow> Inl (e, c, calls)
                 | Inr its \<Rightarrow>
                     Inr ((c\<lparr>cache := foldl (\<lambda>m it. mem_set_expire m (item_key it) (item_value it)
                                                 (item_expires it)) (cache c) its\<rparr>)
                            \<lparr>changesSinceLastSave := True\<rparr>,
                          calls @ [OnEnd])))
      else
        (let error = NotExist pathToFile
         in Inr (emit (ERROR error) c, if onError then [OnError error] else [])))"

subsection \<open>The Write Coalescer\<close>

definition flushPendingWrites :: "'v FlatCache \<Rightarrow> 'v FlatCache" where
  "flushPendingWrites c =
     (let c1 = (case batchWriteTimer c of Some t \<Rightarrow> c\<lparr>batchWriteTimer := None\<rparr> | None \<Rightarrow> c)
      in if length (pendingWrites c1) > 0 then c1\<lparr>pendingWrites := []\<rparr> else c1)"

definition scheduleBatchWrite :: "'v FlatCache \<Rightarrow> 'v FlatCache" where
  "scheduleBatchWrite c =
     (case batchWriteTimer c of
        Some t \<Rightarrow> c
      | None \<Rightarrow>
          if length (pendingWrites c) \<ge> batchWriteSize c then flushPendingWrites c
          else c\<lparr>batchWriteTimer := Some (batchWriteDelay c)\<rparr>)"

text \<open>The callback the batch timer runs when it fires.\<close>

definition batchWriteTimer_fires :: "'v FlatCache \<Rightarrow> 'v FlatCache" where
  "batchWriteTimer_fires c = (case batchWriteTimer c of Some t \<Rightarrow> flushPendingWrites c | None \<Rightarrow> c)"

subsection \<open>set, delete, get\<close>

definition fc_set :: "'v FlatCache \<Rightarrow> timestamp \<Rightarrow> key \<Rightarrow> 'v \<Rightarrow> nat option \<Rightarrow> 'v FlatCache" where
  "fc_set c now k v ttl =
     scheduleBatchWrite
       (c\<lparr>cache := mem_set (cache c) now k v ttl,
          lruCache := touch (lruCache c) k,
          changesSinceLastSave := True,
          serializationCacheValid := False,
          pendingWrites := AList.update k v (pendingWrites c)\<rparr>)"

definition fc_delete :: "'v FlatCache \<Rightarrow> key \<Rightarrow> 'v FlatCache" where
  "fc_delete c k =
     emit (DELETE k)
       (c\<lparr>cache := mem_delete (cache c) k,
          lruCache := lru_delete (lruCache c) k,
          changesSinceLastSave := True,
          serializationCacheValid := False,
          pendingWrites := AList.delete k (pendingWrites c)\<rparr>)"

definition fc_get :: "'v FlatCache \<Rightarrow> timestamp \<Rightarrow> key \<Rightarrow> 'v option \<times> 'v FlatCache" where
  "fc_get c now k =
     (let v = mem_get (cache c) now k
      in case v of
           Some x \<Rightarrow> (v, c\<lparr>lruCache := touch (lruCache c) k\<rparr>)
         | None \<Rightarrow> (v, c\<lparr>lruCache := lru_delete (lruCache c) k\<rparr>))"

subsection \<open>save, clear, destroy\<close>

text \<open>The body of the \<open>try\<close> block of \<open>save\<close>.\<close>

definition save_try ::
  "'v FlatCache \<Rightarrow> filesystem \<Rightarrow> timestamp \<Rightarrow> bool
     \<Rightarrow> (error \<times> 'v FlatCache \<times> filesystem) + ('v FlatCache \<times> filesystem)" where
  "save_try c fs now force =
     (if changesSinceLastSave c \<or> force then
        (let c1 = flushPendingWrites c;
             filePath = cacheFilePath c1;
             its = mem_items (cache c1) now;
             (data, c2) =
               (case serializationCache c1 of
                  Some s \<Rightarrow>
                    if serializationCacheValid c1 \<and> s \<noteq> [] then (s, c1)
                    else (stringify c1 its,
                          c1\<lparr>serializationCache := Some (stringify c1 its),
                             serializationCacheValid := True\<rparr>)
                | None \<Rightarrow>
                    (stringify c1 its,
                     c1\<lparr>serializationCache := Some (stringify c1 its),
                        serializationCacheValid := True\<rparr>))
         in case (if \<not> existsSync fs (cacheDir c2) then mkdirSync fs (cacheDir c2) else Inr fs) of
              Inl e \<Rightarrow> Inl (e, c2, fs)
            | Inr fs1 \<Rightarrow>
                (case writeFileSync fs1 filePath data of
                   Inl e \<Rightarrow> Inl (e, c2, fs1)
                 | Inr fs2 \<Rightarrow> Inr (emit SAVE (c2\<lparr>changesSinceLastSave := False\<rparr>), fs2)))
      else Inr (c, fs))"

definition save :: "'v FlatCache \<Rightarrow> filesystem \<Rightarrow> timestamp \<Rightarrow> bool \<Rightarrow> 'v FlatCache \<times> filesystem" where
  "save c fs now force =
     (case save_try c fs now force of
        Inr r \<Rightarrow> r
      | Inl (e, c1, fs1) \<Rightarrow> (emit (ERROR e) c1, fs1))"

definition fc_clear :: "'v FlatCache \<Rightarrow> filesystem \<Rightarrow> timestamp \<Rightarrow> 'v FlatCache \<times> filesystem" where
  "fc_clear c fs now =
     (let c1 = c\<lparr>cache := mem_clear (cache c),
                 lruCache := lru_clear (lruCache c),
                 changesSinceLastSave := True,
                 serializationCacheValid := False,
                 pendingWrites := []\<rparr>;
          (c2, fs2) = save c1 fs now False
      in (emit CLEAR c2, fs2))"

definition removeCacheFile :: "'v FlatCache \<Rightarrow> filesystem \<Rightarrow> bool \<times> 'v FlatCache \<times> filesystem" where
  "removeCacheFile c fs =
     (if existsSync fs (cacheFilePath c) then
        (case rmSync fs (cacheFilePath c) of
           Inr fs1 \<Rightarrow> (True, c, fs1)
         | Inl e \<Rightarrow> (False, emit (ERROR e) c, fs))
      else (False, c, fs))"

definition destroy :: "'v FlatCache \<Rightarrow> filesystem \<Rightarrow> bool \<Rightarrow> 'v FlatCache \<times> filesystem" where
  "destroy c fs includeCacheDirectory =
     (let c1 = c\<lparr>cache := mem_clear (cache c),
                 lruCache := lru_clear (lruCache c),
                 serializationCache := None,
                 serializationCacheValid := False\<rparr>;
          c2 = stopAutoPersist (flushPendingWrites c1)
      in case rmSync_rf fs (if includeCacheDirectory then cacheDirPath c2 else cacheFilePath c2) of
           Inl e \<Rightarrow> (emit (ERROR e) c2, fs)
         | Inr fs1 \<Rightarrow> (emit DESTROY (c2\<lparr>changesSinceLastSave := False\<rparr>), fs1))"

text \<open>The callback the auto-persist timer runs each time it fires.\<close>

definition persistTimer_fires :: "'v FlatCache \<Rightarrow> filesystem \<Rightarrow> timestamp \<Rightarrow> 'v FlatCache \<times> filesystem" where
  "persistTimer_fires c fs now = (case persistTimer c of Some t \<Rightarrow> save c fs now False | None \<Rightarrow> (c, fs))"

subsection \<open>The module's functions\<close>

definition create ::
  "(string \<Rightarrow> error + 'v item list) \<Rightarrow> ('v item list \<Rightarrow> string) \<Rightarrow> 'v FlatCacheOptions
     \<Rightarrow> filesystem \<Rightarrow> 'v FlatCache" where
  "create flatted_parse flatted_stringify options fs =
     load (new_FlatCache flatted_parse flatted_stringify options) fs None None"

definition createFromFile ::
  "(string \<Rightarrow> error + 'v item list) \<Rightarrow> ('v item list \<Rightarrow> string) \<Rightarrow> path \<Rightarrow> 'v FlatCacheOptions
     \<Rightarrow> filesystem \<Rightarrow> (error \<times> 'v FlatCache) + 'v FlatCache" where
  "createFromFile flatted_parse flatted_stringify filePath options fs =
     loadFile (new_FlatCache flatted_parse flatted_stringify options) fs filePath"

section \<open>Runs of a cache\<close>

text \<open>
  One instance, the disk and the clock, and the calls a program can make on them
  one after the other: the methods, the property setters, the two timers firing,
  and time passing. A call that throws leaves the state it had reached; the clock
  never runs backwards.
\<close>

record 'v world =
  inst :: "'v FlatCache"
  disk :: filesystem
  clock :: timestamp

datatype 'v call =
    Set key 'v "nat option"
  | Get key
  | Delete key
  | Clear
  | Save bool
  | Load "string option" "path option"
  | LoadFile path
  | LoadFileStream path nat bool
  | RemoveCacheFile
  | Destroy bool
  | StartAutoPersist
  | StopAutoPersist
  | SetCacheDir path
  | SetCacheId string
  | SetPersistInterval nat
  | BatchTimerFires
  | PersistTimerFires
  | Wait nat

fun step :: "'v world \<Rightarrow> 'v call \<Rightarrow> 'v world" where
  "step w (Set k v ttl) = w\<lparr>inst := fc_set (inst w) (clock w) k v ttl\<rparr>"
| "step w (Get k) = w\<lparr>inst := snd (fc_get (inst w) (clock w) k)\<rparr>"
| "step w (Delete k) = w\<lparr>inst := fc_delete (inst w) k\<rparr>"
| "step w Clear = (let (c, fs) = fc_clear (inst w) (disk w) (clock w) in w\<lparr>inst := c, disk := fs\<rparr>)"
| "step w (Save force) = (let (c, fs) = save (inst w) (disk w) (clock w) force in w\<lparr>inst := c, disk := fs\<rparr>)"
| "step w (Load i d) = w\<lparr>inst := load (inst w) (disk w) i d\<rparr>"
| "step w (LoadFile p) =
     (case loadFile (inst w) (disk w) p of Inr c \<Rightarrow> w\<lparr>inst := c\<rparr> | Inl (e, c) \<Rightarrow> w\<lparr>inst := c\<rparr>)"
| "step w (LoadFileStream p n onError) =
     (case loadFileStream (inst w) (disk w) p n onError of
        Inr (c, calls) \<Rightarrow> w\<lparr>inst := c\<rparr> | Inl (e, c, calls) \<Rightarrow> w\<lparr>inst := c\<rparr>)"
| "step w RemoveCacheFile =
     (let (b, c, fs) = removeCacheFile (inst w) (disk w) in w\<lparr>inst := c, disk := fs\<rparr>)"
| "step w (Destroy d) = (let (c, fs) = destroy (inst w) (disk w) d in w\<lparr>inst := c, disk := fs\<rparr>)"
| "step w StartAutoPersist = w\<lparr>inst := startAutoPersist (inst w)\<rparr>"
| "step w StopAutoPersist = w\<lparr>inst := stopAutoPersist (inst w)\<rparr>"
| "step w (SetCacheDir d) = w\<lparr>inst := (inst w)\<lparr>cacheDir := d\<rparr>\<rparr>"
| "step w (SetCacheId i) = w\<lparr>inst := (inst w)\<lparr>cacheId := i\<rparr>\<rparr>"
| "step w (SetPersistInterval n) = w\<lparr>inst := (inst w)\<lparr>persistInterval := n\<rparr>\<rparr>"
| "step w BatchTimerFires = w\<lparr>inst := batchWriteTimer_fires (inst w)\<rparr>"
| "step w PersistTimerFires =
     (let (c, fs) = persistTimer_fires (inst w) (disk w) (clock w) in w\<lparr>inst := c, disk := fs\<rparr>)"
| "step w (Wait d) = w\<lparr>clock := clock w + d\<rparr>"

definition run :: "'v world \<Rightarrow> 'v call list \<Rightarrow> 'v world" where
  "run w cs = foldl step w cs"

text \<open>
  A sequence of \<open>set\<close> calls, each after a wait (of any length, also none): one
  entry \<open>(wait, key, value, ttl)\<close> for each call.
\<close>

definition set_calls :: "(nat \<times> key \<times> 'v \<times> nat option) list \<Rightarrow> 'v call list" where
  "set_calls xs = concat (map (\<lambda>(dt, k, v, ttl). [Wait dt, Set k v ttl]) xs)"

text \<open>
  What every call keeps true of an instance: the tracker is well formed and the keys
  of the Memory Store are unique.
\<close>

definition inst_ok :: "'v FlatCache \<Rightarrow> bool" where
  "inst_ok c = (wf_lru (lruCache c) \<and> distinct (map fst (mem_entries (cache c))))"

text \<open>
  What every call keeps true of the Write Coalescer: while no flush is scheduled,
  nothing is pending.
\<close>

definition pending_ok :: "'v FlatCache \<Rightarrow> bool" where
  "pending_ok c = (batchWriteTimer c = None \<longrightarrow> pendingWrites c = [])"

section \<open>Example instances\<close>

text \<open>
  Concrete inputs on which the properties below are evaluated: a codec for entries
  with numbers as values (an entry is written \<open>key:value:expires;\<close>, numbers in
  unary, \<open>-\<close> for no expiration), an instance with a tracker of capacity 2 and a
  batch threshold of 2, and some disks.
\<close>

primrec fields :: "char \<Rightarrow> string \<Rightarrow> string \<Rightarrow> string list" where
  "fields c acc [] = (if acc = [] then [] else [acc])"
| "fields c acc (x # xs) = (if x = c then acc # fields c [] xs else fields c (acc @ [x]) xs)"

definition example_encode :: "nat item \<Rightarrow> string" where
  "example_encode it =
     item_key it @ '':'' @ replicate (item_value it) (CHR ''1'') @ '':'' @
     (case item_expires it of None \<Rightarrow> ''-'' | Some t \<Rightarrow> replicate t (CHR ''1'')) @ '';''"

definition example_stringify :: "nat item list \<Rightarrow> string" where
  "example_stringify its = concat (map example_encode its)"

definition example_decode :: "string \<Rightarrow> nat item option" where
  "example_decode s =
     (case fields (CHR '':'') [] s of
        [k, v, e] \<Rightarrow>
          Some \<lparr>item_key = k, item_value = length v,
                item_expires = (if e = ''-'' then None else Some (length e))\<rparr>
      | _ \<Rightarrow> None)"

definition example_parse :: "string \<Rightarrow> error + nat item list" where
  "example_parse s =
     (let its = map example_decode (fields (CHR '';'') [] s)
      in if None \<in> set its then Inl DecodeError else Inr (map the its))"

definition example_options :: "nat FlatCacheOptions" where
  "example_options =
     \<lparr>opt_ttl = None, opt_useClone = None, opt_lruSize = None, opt_expirationInterval = None,
      opt_persistInterval = None, opt_cacheDir = None, opt_cacheId = None,
      opt_deserialize = None, opt_serialize = None, opt_inMemoryLruSize = Some 2,
      opt_batchWriteSize = Some 2, opt_batchWriteDelay = None\<rparr>"

definition example_cache :: "nat FlatCache" where
  "example_cache = new_FlatCache example_parse example_stringify example_options"

definition dirty_cache :: "nat FlatCache" where
  "dirty_cache = fc_set example_cache 0 ''a'' 1 None"

definition empty_disk :: filesystem where
  "empty_disk = \<lparr>files = [], dirs = [], readonly = []\<rparr>"

definition locked_disk :: filesystem where
  "locked_disk = \<lparr>files = [], dirs = [''.cache''], readonly = [''.cache/cache1'']\<rparr>"

definition other_disk :: filesystem where
  "other_disk = \<lparr>files = [(''other'', ''b:11:-;'')], dirs = [], readonly = []\<rparr>"

text \<open>
  The calls \<open>set("a", 1)\<close>, \<open>save()\<close>, \<open>loadFile("other")\<close>, \<open>save()\<close> on a new
  instance, where the file \<open>other\<close> holds an entry for \<open>b\<close>.
\<close>

definition stale_run :: "nat world" where
  "stale_run =
     run \<lparr>inst = example_cache, disk = other_disk, clock = 0\<rparr>
       [Set ''a'' 1 None, Save False, LoadFile ''other'', Save False]"

text \<open>Three \<open>set\<close> calls on an instance whose tracker has capacity 2.\<close>

definition evicting_run :: "nat world" where
  "evicting_run =
     run \<lparr>inst = example_cache, disk = empty_disk, clock = 0\<rparr>
       [Set ''a'' 1 None, Set ''b'' 2 None, Set ''c'' 3 None]"

text \<open>
  Two \<open>set\<close> calls on a new instance, the second with a time-to-live of 5; and the
  calls \<open>set("a", 1)\<close>, \<open>save()\<close>, \<open>removeCacheFile()\<close>, \<open>save()\<close>.
\<close>

definition roundtrip_run :: "nat world" where
  "roundtrip_run =
     run \<lparr>inst = new_FlatCache example_parse example_stringify example_options,
          disk = empty_disk, clock = 0\<rparr>
       ([] @ set_calls [(0, ''a'', 1, None), (0, ''b'', 2, Some 5)])"

definition unsaved_run :: "nat world" where
  "unsaved_run =
     run \<lparr>inst = example_cache, disk = empty_disk, clock = 0\<rparr>
       [Set ''a'' 1 None, Save False, RemoveCacheFile, Save False]"

text \<open>
  An instance whose Memory Store holds one entry at most, and the calls
  \<open>set("a", 1)\<close>, \<open>loadFile("other")\<close> on it.
\<close>

definition bounded_cache :: "nat FlatCache" where
  "bounded_cache =
     new_FlatCache example_parse example_stringify (example_options\<lparr>opt_lruSize := Some 1\<rparr>)"

definition bounded_run :: "nat world" where
  "bounded_run =
     run \<lparr>inst = bounded_cache, disk = other_disk, clock = 0\<rparr>
       [Set ''a'' 1 None, LoadFile ''other'']"

text \<open>An instance whose Memory Store holds two entries at most, after \<open>set("a", 1)\<close>.\<close>

definition roomy_cache :: "nat FlatCache" where
  "roomy_cache =
     fc_set (new_FlatCache example_parse example_stringify (example_options\<lparr>opt_lruSize := Some 2\<rparr>))
       0 ''a'' 1 None"

section \<open>Properties\<close>

subsection \<open>Field lemmas\<close>

lemma removeNode_lru_map: "lru_map (removeNode l a) = lru_map l"
  by (simp add: removeNode_def set_next_def set_prev_def Let_def split: option.splits)

lemma has_lru_delete: "\<not> has (lru_delete l k) k"
  by (simp add: has_def lru_delete_def removeNode_lru_map Let_def AList.delete_conv'
      split: option.splits)

lemma mem_get_delete: "mem_get (mem_delete m k) now k = None"
  by (simp add: mem_get_def mem_delete_def AList.delete_conv')

lemma mem_keys_delete: "k \<notin> set (mem_keys (mem_delete m k) now)"
  by (auto simp: mem_keys_def mem_items_def to_item_def mem_delete_def AList.delete_eq)

lemma length_alist_update_le: "length (AList.update k v al) \<le> Suc (length al)"
  by (induction al) auto

lemma mem_store_fields [simp]:
  "mem_capacity (mem_store m k v e) = mem_capacity m"
  "mem_ttl (mem_store m k v e) = mem_ttl m"
  by (simp_all add: mem_store_def mem_capacity_def Let_def)

lemma mem_store_room:
  "mem_capacity m = 0 \<or> length (mem_entries m) < mem_capacity m \<Longrightarrow>
   mem_entries (mem_store m k v e) = AList.update k (v, e) (mem_entries m)"
  by (auto simp: mem_store_def)

lemma distinct_mem_evict:
  "distinct (map fst es) \<Longrightarrow> distinct (map fst (mem_evict es))"
  by (cases es) (simp_all add: mem_evict_def distinct_delete del: AList.delete_simps)

lemma distinct_mem_store:
  "distinct (map fst (mem_entries m)) \<Longrightarrow> distinct (map fst (mem_entries (mem_store m k v e)))"
  by (simp add: mem_store_def Let_def distinct_update distinct_mem_evict)

subsection \<open>delete\<close>

text \<open>
  C10. \<open>delete(k)\<close> emits the \<open>delete\<close> notification with \<open>k\<close> and sets the dirty
  flag whatever the Memory Store holds: with any other store \<open>m\<close> in place of the
  instance's own, one that holds \<open>k\<close> or one that does not, the notifications and the
  flag after the call are the same.
\<close>

theorem delete_notifies_always:
  "events (fc_delete c k) = events c @ [DELETE k] \<and>
   changesSinceLastSave (fc_delete c k) \<and>
   events (fc_delete (c\<lparr>cache := m\<rparr>) k) = events (fc_delete c k) \<and>
   changesSinceLastSave (fc_delete (c\<lparr>cache := m\<rparr>) k) = changesSinceLastSave (fc_delete c k)"
  by (simp add: fc_delete_def emit_def)

subsection \<open>Evaluation on the example instances\<close>

lemmas example_defs = example_cache_def new_FlatCache_def example_options_def new_FastLRU_def
  mem_new_def empty_disk_def locked_disk_def

lemmas eval_defs = dirty_cache_def fc_set_def touch_def addToFront_def removeLRU_def
  removeNode_def set_next_def set_prev_def new_LRUNode_def mem_set_def mem_store_def
  mem_capacity_def mem_evict_def scheduleBatchWrite_def
  flushPendingWrites_def save_def save_try_def cacheFilePath_def resolve_def mem_items_def to_item_def
  hasExpired_def existsSync_def mkdirSync_def writeFileSync_def emit_def example_stringify_def
  example_encode_def Let_def

lemma flushPendingWrites_fields:
  "events (flushPendingWrites c) = events c"
  "changesSinceLastSave (flushPendingWrites c) = changesSinceLastSave c"
  "cache (flushPendingWrites c) = cache c"
  "cacheDir (flushPendingWrites c) = cacheDir c"
  "cacheId (flushPendingWrites c) = cacheId c"
  "serializationCache (flushPendingWrites c) = serializationCache c"
  "serializationCacheValid (flushPendingWrites c) = serializationCacheValid c"
  "stringify (flushPendingWrites c) = stringify c"
  "parse (flushPendingWrites c) = parse c"
  "lruCache (flushPendingWrites c) = lruCache c"
  by (simp_all add: flushPendingWrites_def Let_def split: option.splits)

lemma scheduleBatchWrite_fields:
  "events (scheduleBatchWrite c) = events c"
  "changesSinceLastSave (scheduleBatchWrite c) = changesSinceLastSave c"
  "cache (scheduleBatchWrite c) = cache c"
  "cacheDir (scheduleBatchWrite c) = cacheDir c"
  "cacheId (scheduleBatchWrite c) = cacheId c"
  "serializationCache (scheduleBatchWrite c) = serializationCache c"
  "serializationCacheValid (scheduleBatchWrite c) = serializationCacheValid c"
  "stringify (scheduleBatchWrite c) = stringify c"
  "parse (scheduleBatchWrite c) = parse c"
  "lruCache (scheduleBatchWrite c) = lruCache c"
  by (simp_all add: scheduleBatchWrite_def flushPendingWrites_fields split: option.splits)

lemma save_fields:
  "lruCache (fst (save c fs now force)) = lruCache c"
  "cache (fst (save c fs now force)) = cache c"
  "cacheDir (fst (save c fs now force)) = cacheDir c"
  "cacheId (fst (save c fs now force)) = cacheId c"
  "stringify (fst (save c fs now force)) = stringify c"
  "parse (fst (save c fs now force)) = parse c"
  by (simp_all add: save_def save_try_def emit_def Let_def flushPendingWrites_fields
      split: option.splits sum.splits prod.splits)

subsection \<open>loadFile on a missing path\<close>

text \<open>
  C4, as the claim states it, fails: on a path that does not exist, \<open>loadFile\<close>
  returns normally with the instance as it was, and no notification has been
  emitted; so does its wrapper \<open>createFromFile\<close>.
\<close>

theorem loadFile_missing_counterexample:
  "\<not> existsSync empty_disk ''missing'' \<and>
   loadFile example_cache empty_disk ''missing'' = Inr example_cache \<and>
   createFromFile example_parse example_stringify ''missing'' example_options empty_disk =
     Inr example_cache \<and>
   events example_cache = []"
  by (simp add: loadFile_def createFromFile_def existsSync_def example_defs)

text \<open>
  C4, amended. On a path that does not exist, \<open>loadFile\<close> neither throws nor
  emits anything and leaves the whole instance unchanged. It is the streaming variant
  \<open>loadFileStream\<close> that reports the error: it emits the \<open>error\<close> notification,
  calls \<open>onError\<close> when one is given, and leaves the contents unchanged.
\<close>

theorem loadFile_missing:
  "\<not> existsSync fs p \<Longrightarrow>
     loadFile c fs p = Inr c \<and>
     loadFileStream c fs p n onError =
       Inr (emit (ERROR (NotExist p)) c, if onError then [OnError (NotExist p)] else []) \<and>
     cache (emit (ERROR (NotExist p)) c) = cache c"
  by (simp add: loadFile_def loadFileStream_def emit_def Let_def)

theorem loadFile_missing_witness:
  "\<not> existsSync empty_disk ''missing'' \<and>
   loadFile example_cache empty_disk ''missing'' = Inr example_cache \<and>
   loadFileStream example_cache empty_disk ''missing'' 1 True =
     Inr (emit (ERROR (NotExist ''missing'')) example_cache, [OnError (NotExist ''missing'')])"
proof -
  have h: "\<not> existsSync empty_disk ''missing''"
    by (simp add: existsSync_def empty_disk_def)
  show ?thesis
    using h loadFile_missing [OF h, of example_cache 1 True] by simp
qed

subsection \<open>save\<close>

text \<open>
  C5. \<open>save\<close> does nothing unless the dirty flag is set or \<open>force\<close> is true. When
  a \<open>save()\<close> completes its write, the dirty flag is false after it, and a second
  \<open>save()\<close> with no mutation in between, at whatever later time, changes neither the
  instance nor the disk: the flag is false after both calls.
\<close>

theorem save_idempotent:
  "(\<not> changesSinceLastSave c \<and> \<not> force \<longrightarrow> save c fs now force = (c, fs)) \<and>
   (save_try c fs now False = Inr (c1, fs1) \<longrightarrow>
      save c fs now False = (c1, fs1) \<and> \<not> changesSinceLastSave c1 \<and>
      save c1 fs1 later False = (c1, fs1))"
proof (intro conjI impI)
  assume "\<not> changesSinceLastSave c \<and> \<not> force"
  then show "save c fs now force = (c, fs)"
    by (simp add: save_def save_try_def)
next
  assume ok: "save_try c fs now False = Inr (c1, fs1)"
  then show "save c fs now False = (c1, fs1)"
    by (simp add: save_def)
  from ok show clean: "\<not> changesSinceLastSave c1"
    by (auto simp: save_try_def emit_def Let_def
        split: if_splits option.splits sum.splits prod.splits)
  then show "save c1 fs1 later False = (c1, fs1)"
    by (simp add: save_def save_try_def)
qed

theorem save_idempotent_witness:
  "save example_cache empty_disk 0 False = (example_cache, empty_disk) \<and>
   files (snd (save dirty_cache empty_disk 0 False)) = [(''.cache/cache1'', ''a:1:-;'')] \<and>
   \<not> changesSinceLastSave (fst (save dirty_cache empty_disk 0 False)) \<and>
   save (fst (save dirty_cache empty_disk 0 False)) (snd (save dirty_cache empty_disk 0 False))
       5 False =
     save dirty_cache empty_disk 0 False"
proof -
  have clean: "\<not> changesSinceLastSave example_cache \<and> \<not> False"
    by (simp add: example_defs)
  have ok: "save_try dirty_cache empty_disk 0 False =
      Inr (fst (save dirty_cache empty_disk 0 False), snd (save dirty_cache empty_disk 0 False))"
    by (simp add: example_defs eval_defs)
  have written:
    "files (snd (save dirty_cache empty_disk 0 False)) = [(''.cache/cache1'', ''a:1:-;'')]"
    by (simp add: example_defs eval_defs)
  show ?thesis
    using clean ok written
      save_idempotent [of example_cache False empty_disk 0]
      save_idempotent [of dirty_cache False empty_disk 0
        "fst (save dirty_cache empty_disk 0 False)" "snd (save dirty_cache empty_disk 0 False)" 5]
    by simp
qed

lemma save_try_fails_only_on_io:
  "save_try c fs now force = Inl (e, c1, fs1) \<Longrightarrow>
     (changesSinceLastSave c \<or> force) \<and>
     (mkdirSync fs (cacheDir c) = Inl e \<or> (\<exists>fs' data. writeFileSync fs' (cacheFilePath c) data = Inl e))"
  by (auto simp: save_try_def Let_def flushPendingWrites_fields cacheFilePath_def
      split: if_splits option.splits sum.splits)

text \<open>
  C6. When the \<open>try\<close> block of \<open>save\<close> fails, which only the creation of the
  directory or the write of the file can make it do, \<open>save\<close> returns normally: the
  error is emitted as an \<open>error\<close> notification, the dirty flag is what it was
  before the call, hence set when the save was not forced, and no file has changed.
\<close>

theorem save_write_fails:
  "save_try c fs now force = Inl (e, c1, fs1) \<Longrightarrow>
     save c fs now force = (emit (ERROR e) c1, fs1) \<and>
     events (fst (save c fs now force)) = events c @ [ERROR e] \<and>
     changesSinceLastSave (fst (save c fs now force)) = changesSinceLastSave c \<and>
     (changesSinceLastSave (fst (save c fs now force)) \<or> force) \<and>
     files (snd (save c fs now force)) = files fs"
  by (auto simp: save_def save_try_def emit_def Let_def flushPendingWrites_fields mkdirSync_def
      split: if_splits option.splits sum.splits prod.splits)

theorem save_write_fails_witness:
  "save_try dirty_cache locked_disk 0 False =
     Inl (EACCES ''.cache/cache1'',
          dirty_cache\<lparr>batchWriteTimer := None, pendingWrites := [],
            serializationCache := Some ''a:1:-;'', serializationCacheValid := True\<rparr>,
          locked_disk) \<and>
   events (fst (save dirty_cache locked_disk 0 False)) = [ERROR (EACCES ''.cache/cache1'')] \<and>
   changesSinceLastSave (fst (save dirty_cache locked_disk 0 False)) \<and>
   files (snd (save dirty_cache locked_disk 0 False)) = []"
proof -
  have fails: "save_try dirty_cache locked_disk 0 False =
     Inl (EACCES ''.cache/cache1'',
          dirty_cache\<lparr>batchWriteTimer := None, pendingWrites := [],
            serializationCache := Some ''a:1:-;'', serializationCacheValid := True\<rparr>,
          locked_disk)"
    by (simp add: example_defs eval_defs)
  have "events dirty_cache = []" "files locked_disk = []" "changesSinceLastSave dirty_cache"
    by (simp_all add: example_defs eval_defs)
  then show ?thesis
    using fails save_write_fails [OF fails] by (simp add: emit_def)
qed

subsection \<open>The serialized-snapshot cache\<close>

lemmas run_defs = run_def loadFile_def readFileSync_def mem_set_expire_def
  example_parse_def example_decode_def keys_def mem_keys_def items_def

text \<open>
  The valid flag is cleared by \<open>set\<close>, \<open>delete\<close> and \<open>destroy\<close> (and by \<open>clear\<close>,
  before its \<open>save\<close>), it is set by \<open>save\<close> only with a fresh encoding of the items,
  and \<open>loadFile\<close> leaves it as it is.
\<close>

lemma valid_flag_cleared_by_mutators:
  "\<not> serializationCacheValid (fc_set c now k v ttl)"
  "\<not> serializationCacheValid (fc_delete c k)"
  "\<not> serializationCacheValid (fst (destroy c fs b))"
  by (simp_all add: fc_set_def fc_delete_def destroy_def emit_def scheduleBatchWrite_fields
      stopAutoPersist_def flushPendingWrites_fields Let_def split: sum.splits option.splits)

lemma valid_flag_set_by_fresh_encode:
  "\<not> serializationCacheValid c \<Longrightarrow> serializationCacheValid (fst (save c fs now force)) \<Longrightarrow>
     serializationCache (fst (save c fs now force)) = Some (stringify c (mem_items (cache c) now))"
  by (auto simp: save_def save_try_def emit_def flushPendingWrites_fields Let_def
      split: if_splits option.splits sum.splits)

lemma valid_flag_kept_by_loadFile:
  "loadFile c fs p = Inr c' \<Longrightarrow> serializationCacheValid c' = serializationCacheValid c"
  by (auto simp: loadFile_def split: if_splits sum.splits)

text \<open>
  C2 fails on the code, by a missed case: \<open>loadFile\<close> changes the Memory Store and
  leaves the valid flag as it is, where \<open>set\<close>, \<open>delete\<close>, \<open>clear\<close> and
  \<open>destroy\<close> clear it. After \<open>set("a", 1)\<close>, \<open>save()\<close>, \<open>loadFile("other")\<close>,
  \<open>save()\<close>, with an entry for \<open>b\<close> in the file \<open>other\<close>: the store holds \<open>a\<close> and
  \<open>b\<close>, whose encoding is \<open>a:1:-;b:11:-;\<close>, but the second \<open>save\<close> has reused the
  snapshot of the first and the cache file holds \<open>a\<close> only; the valid flag is still
  set and the dirty flag is cleared.
\<close>

theorem stale_snapshot_after_loadFile:
  "keys (inst stale_run) 0 = [''a'', ''b''] \<and>
   stringify (inst stale_run) (items (inst stale_run) 0) = ''a:1:-;b:11:-;'' \<and>
   map_of (files (disk stale_run)) (cacheFilePath (inst stale_run)) = Some ''a:1:-;'' \<and>
   serializationCacheValid (inst stale_run) \<and>
   \<not> changesSinceLastSave (inst stale_run)"
  by (simp add: stale_run_def other_disk_def run_defs example_defs eval_defs)

subsection \<open>The Write Coalescer\<close>

lemma flushPendingWrites_done:
  "batchWriteTimer (flushPendingWrites c) = None" "pendingWrites (flushPendingWrites c) = []"
  by (simp_all add: flushPendingWrites_def Let_def split: option.splits)

text \<open>
  What \<open>set\<close> does to the schedule. While a flush is scheduled, the call leaves the
  timer as it is and the set keeps what it holds, also when its size has reached the
  threshold. When no flush is scheduled, the set is flushed at once if its size has
  reached the threshold, and else a timer of the configured delay is armed. An armed
  timer that fires empties the set and disarms itself.
\<close>

lemma set_schedules_batch_write:
  "(batchWriteTimer c = Some t \<longrightarrow>
      pendingWrites (fc_set c now k v ttl) = AList.update k v (pendingWrites c) \<and>
      batchWriteTimer (fc_set c now k v ttl) = Some t) \<and>
   (batchWriteTimer c = None \<and> batchWriteSize c \<le> length (AList.update k v (pendingWrites c)) \<longrightarrow>
      pendingWrites (fc_set c now k v ttl) = [] \<and>
      batchWriteTimer (fc_set c now k v ttl) = None) \<and>
   (batchWriteTimer c = None \<and> length (AList.update k v (pendingWrites c)) < batchWriteSize c \<longrightarrow>
      pendingWrites (fc_set c now k v ttl) = AList.update k v (pendingWrites c) \<and>
      batchWriteTimer (fc_set c now k v ttl) = Some (batchWriteDelay c)) \<and>
   (batchWriteTimer c = Some t \<longrightarrow>
      scheduleBatchWrite c = c \<and>
      pendingWrites (batchWriteTimer_fires c) = [] \<and>
      batchWriteTimer (batchWriteTimer_fires c) = None)"
  by (simp add: fc_set_def scheduleBatchWrite_def flushPendingWrites_def
      batchWriteTimer_fires_def Let_def)

text \<open>
  C3 fails on the code, by the order of two tests: \<open>scheduleBatchWrite\<close> returns
  when the timer is armed before it compares the size of the Pending-Write Set with
  the threshold. With a batch threshold of 2, the first \<open>set\<close> arms the timer; the
  second brings the set to size 2 and returns with both keys still pending and the
  timer still armed: nothing is flushed.
\<close>

theorem threshold_reached_not_flushed:
  "batchWriteSize example_cache = 2 \<and>
   pendingWrites dirty_cache = [(''a'', 1)] \<and>
   batchWriteTimer dirty_cache = Some 100 \<and>
   pendingWrites (fc_set dirty_cache 0 ''b'' 2 None) = [(''a'', 1), (''b'', 2)] \<and>
   batchWriteTimer (fc_set dirty_cache 0 ''b'' 2 None) = Some 100"
  by (simp add: example_defs eval_defs)

subsection \<open>loadFile merges\<close>

lemma foldl_mem_set_expire_other:
  assumes "mem_capacity m = 0 \<or> length (mem_entries m) + length its \<le> mem_capacity m"
    and "k \<notin> item_key ` set its"
  shows "map_of (mem_entries (foldl (\<lambda>m it. mem_set_expire m (item_key it) (item_value it)
     (item_expires it)) m its)) k = map_of (mem_entries m) k"
  using assms
proof (induction its arbitrary: m)
  case Nil
  show ?case by simp
next
  case (Cons it its)
  let ?m = "mem_set_expire m (item_key it) (item_value it) (item_expires it)"
  from Cons.prems(1) have "mem_capacity m = 0 \<or> length (mem_entries m) < mem_capacity m"
    by auto
  then have es: "mem_entries ?m =
      AList.update (item_key it) (item_value it, item_expires it) (mem_entries m)"
    by (simp add: mem_set_expire_def mem_store_room)
  have "length (mem_entries ?m) \<le> Suc (length (mem_entries m))"
    by (simp add: es length_alist_update_le)
  with Cons.prems(1)
  have room: "mem_capacity ?m = 0 \<or> length (mem_entries ?m) + length its \<le> mem_capacity ?m"
    by (auto simp: mem_set_expire_def)
  from Cons.prems(2) have nk: "k \<notin> item_key ` set its" "k \<noteq> item_key it"
    by auto
  have "map_of (mem_entries (foldl (\<lambda>m it. mem_set_expire m (item_key it) (item_value it)
     (item_expires it)) ?m its)) k = map_of (mem_entries ?m) k"
    using room nk(1) by (rule Cons.IH)
  also have "\<dots> = map_of (mem_entries m) k"
    using nk(2) by (simp add: es AList.update_conv')
  finally show ?case by simp
qed

lemma foldl_mem_set_expire_map:
  assumes "mem_capacity m = 0 \<or> length (mem_entries m) + length its \<le> mem_capacity m"
  shows "map_of (mem_entries (foldl (\<lambda>m it. mem_set_expire m (item_key it) (item_value it)
     (item_expires it)) m its)) k =
     (case map_of (rev (map (\<lambda>it. (item_key it, item_value it, item_expires it)) its)) k of
        Some x \<Rightarrow> Some x | None \<Rightarrow> map_of (mem_entries m) k)"
  using assms
proof (induction its arbitrary: m)
  case Nil
  show ?case by simp
next
  case (Cons it its)
  let ?m = "mem_set_expire m (item_key it) (item_value it) (item_expires it)"
  from Cons.prems have "mem_capacity m = 0 \<or> length (mem_entries m) < mem_capacity m"
    by auto
  then have es: "mem_entries ?m =
      AList.update (item_key it) (item_value it, item_expires it) (mem_entries m)"
    by (simp add: mem_set_expire_def mem_store_room)
  have cap: "mem_capacity ?m = mem_capacity m"
    by (simp add: mem_set_expire_def)
  have "length (mem_entries ?m) \<le> Suc (length (mem_entries m))"
    unfolding es by (rule length_alist_update_le)
  with Cons.prems
  have room: "mem_capacity ?m = 0 \<or> length (mem_entries ?m) + length its \<le> mem_capacity ?m"
    unfolding cap by auto
  have now: "map_of (mem_entries ?m) k =
      (if k = item_key it then Some (item_value it, item_expires it) else map_of (mem_entries m) k)"
    unfolding es by (simp add: AList.update_conv')
  show ?case
    using Cons.IH [OF room] now by (simp add: map_add_def split: option.splits)
qed

text \<open>
  C9, as the claim states it, fails where the Memory Store is bounded: on an
  instance whose store holds one entry at most, after \<open>set("a", 1)\<close> the call
  \<open>loadFile("other")\<close>, of a file that holds an entry for \<open>b\<close> only, leaves \<open>b\<close> in
  the store and \<open>a\<close> evicted.
\<close>

theorem loadFile_evicts_counterexample:
  "keys (inst (run \<lparr>inst = bounded_cache, disk = other_disk, clock = 0\<rparr> [Set ''a'' 1 None])) 0 =
     [''a''] \<and>
   parse bounded_cache ''b:11:-;'' = Inr [\<lparr>item_key = ''b'', item_value = 2, item_expires = None\<rparr>] \<and>
   map_of (files other_disk) ''other'' = Some ''b:11:-;'' \<and>
   keys (inst bounded_run) 0 = [''b''] \<and>
   fst (fc_get (inst bounded_run) 0 ''a'') = None"
  by (simp add: bounded_run_def bounded_cache_def other_disk_def run_defs example_defs eval_defs
      fc_get_def mem_get_def)

text \<open>
  C9, amended. When the file exists and decodes, \<open>loadFile\<close> returns and has not
  cleared the Memory Store first: if the store has no capacity bound, or room for the
  decoded entries beside its own, an entry whose key is not among the decoded
  entries is as it was, value and expiration, and a \<open>get\<close> of the store on such a
  key answers as before; and under a key of the file the store holds the last
  decoded entry with that key. (Beyond its capacity the store evicts by its own
  policy.)
\<close>

theorem loadFile_merges:
  "readFileSync fs p = Inr data \<Longrightarrow> parse c data = Inr its \<Longrightarrow> loadFile c fs p = Inr c' \<Longrightarrow>
   mem_capacity (cache c) = 0 \<or>
     length (mem_entries (cache c)) + length its \<le> mem_capacity (cache c) \<Longrightarrow>
   k \<notin> item_key ` set its \<Longrightarrow>
     map_of (mem_entries (cache c')) k = map_of (mem_entries (cache c)) k \<and>
     mem_get (cache c') now k = mem_get (cache c) now k \<and>
     (k' \<in> item_key ` set its \<longrightarrow>
        map_of (mem_entries (cache c')) k' =
          map_of (rev (map (\<lambda>it. (item_key it, item_value it, item_expires it)) its)) k')"
proof -
  assume rd: "readFileSync fs p = Inr data" and ps: "parse c data = Inr its"
    and ld: "loadFile c fs p = Inr c'"
    and room: "mem_capacity (cache c) = 0 \<or>
      length (mem_entries (cache c)) + length its \<le> mem_capacity (cache c)"
    and nk: "k \<notin> item_key ` set its"
  from rd have ex: "existsSync fs p"
    by (auto simp: existsSync_def readFileSync_def split: option.splits if_splits)
  from ld have c': "cache c' = foldl (\<lambda>m it. mem_set_expire m (item_key it) (item_value it)
     (item_expires it)) (cache c) its"
    by (auto simp: loadFile_def ex rd ps)
  have kept: "map_of (mem_entries (cache c')) k = map_of (mem_entries (cache c)) k"
    unfolding c' using room nk by (rule foldl_mem_set_expire_other)
  have merged: "map_of (mem_entries (cache c')) k' =
      map_of (rev (map (\<lambda>it. (item_key it, item_value it, item_expires it)) its)) k'"
    if "k' \<in> item_key ` set its"
  proof -
    from that have "k' \<in> fst ` set (rev (map (\<lambda>it. (item_key it, item_value it, item_expires it)) its))"
      by (auto simp: image_iff)
    then obtain x where "map_of (rev (map (\<lambda>it. (item_key it, item_value it, item_expires it)) its)) k' = Some x"
      by (metis map_of_eq_None_iff not_Some_eq)
    then show ?thesis
      unfolding c' by (simp add: foldl_mem_set_expire_map [OF room])
  qed
  from kept merged show ?thesis
    by (simp add: mem_get_def)
qed

theorem loadFile_merges_witness:
  "loadFile roomy_cache other_disk ''other'' =
     Inr (roomy_cache\<lparr>cache := mem_set_expire (cache roomy_cache) ''b'' 2 None,
                      changesSinceLastSave := True\<rparr>) \<and>
   mem_capacity (cache roomy_cache) = 2 \<and>
   map_of (mem_entries (cache roomy_cache)) ''a'' = Some (1, None) \<and>
   map_of (mem_entries (mem_set_expire (cache roomy_cache) ''b'' 2 None)) ''a'' = Some (1, None) \<and>
   mem_get (mem_set_expire (cache roomy_cache) ''b'' 2 None) 7 ''a'' = Some 1 \<and>
   map_of (mem_entries (mem_set_expire (cache roomy_cache) ''b'' 2 None)) ''b'' = Some (2, None)"
proof -
  have ex: "existsSync other_disk ''other''"
    by (simp add: existsSync_def other_disk_def)
  have rd: "readFileSync other_disk ''other'' = Inr ''b:11:-;''"
    by (simp add: readFileSync_def other_disk_def)
  have ps: "parse roomy_cache ''b:11:-;'' =
      Inr [\<lparr>item_key = ''b'', item_value = 2, item_expires = None\<rparr>]"
    by (simp add: roomy_cache_def example_defs eval_defs run_defs)
  have ld: "loadFile roomy_cache other_disk ''other'' =
      Inr (roomy_cache\<lparr>cache := mem_set_expire (cache roomy_cache) ''b'' 2 None,
                       changesSinceLastSave := True\<rparr>)"
    by (simp add: loadFile_def ex rd ps)
  have cap: "mem_capacity (cache roomy_cache) = 2"
    "length (mem_entries (cache roomy_cache)) = 1"
    by (simp_all add: roomy_cache_def example_defs eval_defs)
  then have room: "mem_capacity (cache roomy_cache) = 0 \<or>
      length (mem_entries (cache roomy_cache)) +
        length [\<lparr>item_key = ''b'', item_value = 2::nat, item_expires = None\<rparr>] \<le>
      mem_capacity (cache roomy_cache)"
    by simp
  have nk: "''a'' \<notin> item_key ` set [\<lparr>item_key = ''b'', item_value = 2::nat, item_expires = None\<rparr>]"
    by simp
  have old: "map_of (mem_entries (cache roomy_cache)) ''a'' = Some (1, None)"
    "mem_get (cache roomy_cache) 7 ''a'' = Some 1"
    by (simp_all add: roomy_cache_def example_defs eval_defs mem_get_def)
  show ?thesis
    using ld cap(1) old loadFile_merges [OF rd ps ld room nk, of 7 "''b''"] by simp
qed

subsection \<open>The doubly linked list\<close>

lemma first_of_simps [simp]: "first_of [] d = d" "first_of (a # as) d = Some a"
  by (simp_all add: first_of_def)

lemma last_of_simps [simp]: "last_of [] d = d" "last_of (a # as) d = last_of as (Some a)"
  by (simp_all add: last_of_def)

lemma first_of_append [simp]: "first_of (xs @ ys) d = first_of xs (first_of ys d)"
  by (cases xs) simp_all

lemma last_of_append [simp]: "last_of (xs @ ys) d = last_of ys (last_of xs d)"
  by (simp add: last_of_def)

lemma dll_Cons: "dll h p (a # as) n =
  (node_prev (h a) = p \<and> node_next (h a) = first_of as n \<and> dll h (Some a) as n)"
  by (simp add: first_of_def)

lemma dll_append:
  "dll h p (xs @ ys) n = (dll h p xs (first_of ys n) \<and> dll h (last_of xs p) ys n)"
proof (induction xs arbitrary: p)
  case Nil
  show ?case by simp
next
  case (Cons x xs)
  show ?case
    by (simp add: Cons.IH dll_Cons del: dll.simps)
qed

lemma dll_upd_notin:
  "a \<notin> set as \<Longrightarrow> dll (h(a := x)) p as n = dll h p as n"
  by (induction as arbitrary: p) auto

lemma dll_set_next_last:
  assumes "dll h p (xs @ [a]) n" "a \<notin> set xs"
  shows "dll (h(a := (h a)\<lparr>node_next := n'\<rparr>)) p (xs @ [a]) n'"
  using assms by (simp add: dll_append dll_upd_notin)

lemma dll_set_prev_first:
  assumes "dll h p (a # as) n" "a \<notin> set as"
  shows "dll (h(a := (h a)\<lparr>node_prev := p'\<rparr>)) p' (a # as) n"
  using assms by (simp add: dll_upd_notin)

lemma removeNode_list:
  assumes "lru_list l (xs @ a # ys)"
  shows "lru_list (removeNode l a) (xs @ ys)"
proof -
  from assms have d: "distinct xs" "distinct ys" "a \<notin> set xs" "a \<notin> set ys" "set xs \<inter> set ys = {}"
    and hd: "head l = first_of xs (Some a)"
    and tl: "tail l = last_of ys (Some a)"
    and ch: "dll (heap l) None (xs @ a # ys) None"
    by (auto simp: lru_list_def)
  from ch have px: "dll (heap l) None xs (Some a)"
    and pa: "node_prev (heap l a) = last_of xs None" "node_next (heap l a) = first_of ys None"
    and py: "dll (heap l) (Some a) ys None"
    by (simp_all add: dll_append dll_Cons del: dll.simps)
  define l1 where "l1 = (case node_prev (heap l a) of
                  Some p \<Rightarrow> set_next l p (node_next (heap l a))
                | None \<Rightarrow> l\<lparr>head := node_next (heap l a)\<rparr>)"
  have rn: "removeNode l a = (case node_next (heap l1 a) of
           Some n \<Rightarrow> set_prev l1 n (node_prev (heap l1 a))
         | None \<Rightarrow> l1\<lparr>tail := node_prev (heap l1 a)\<rparr>)"
    by (simp only: removeNode_def l1_def Let_def)
  have l1: "dll (heap l1) None xs (first_of ys None) \<and> dll (heap l1) (Some a) ys None \<and>
            head l1 = first_of xs (first_of ys None) \<and> tail l1 = tail l \<and>
            heap l1 a = heap l a"
  proof (cases xs rule: rev_cases)
    case Nil
    with pa py show ?thesis by (simp add: l1_def)
  next
    case (snoc xs' p)
    with d have "p \<noteq> a" "p \<notin> set xs'" "p \<notin> set ys" by auto
    with snoc pa px py hd show ?thesis
      using dll_set_next_last [of "heap l" None xs' p "Some a" "first_of ys None"]
      by (simp add: l1_def set_next_def dll_upd_notin)
  qed
  show ?thesis
  proof (cases ys)
    case Nil
    with l1 pa show ?thesis
      by (simp add: rn lru_list_def d)
  next
    case (Cons n ys')
    with d have "n \<noteq> a" "n \<notin> set xs" "n \<notin> set ys'" by auto
    with Cons l1 pa tl d show ?thesis
      using dll_set_prev_first [of "heap l1" "Some a" n ys' None "last_of xs None"]
      by (simp add: rn lru_list_def set_prev_def dll_append dll_upd_notin del: dll.simps)
  qed
qed

lemma addToFront_list:
  assumes "lru_list l as" "a \<notin> set as"
  shows "lru_list (addToFront l a) (a # as)"
proof (cases as)
  case Nil
  with assms show ?thesis
    by (simp add: addToFront_def lru_list_def set_next_def set_prev_def Let_def)
next
  case (Cons b bs)
  with assms have "b \<noteq> a" "a \<notin> set bs" "b \<notin> set bs" "head l = Some b"
    "dll (heap l) None (b # bs) None" "tail l = last_of bs (Some b)" "distinct bs"
    by (auto simp: lru_list_def)
  with Cons show ?thesis
    using dll_set_prev_first [of "heap l" None b bs None "Some a"]
    by (auto simp: addToFront_def lru_list_def set_next_def set_prev_def Let_def dll_upd_notin
        fun_upd_twist last_of_def split: option.splits)
qed

lemma walk_dll: "dll h p as None \<Longrightarrow> walk h (first_of as None) (length as) = as"
  by (induction as arbitrary: p) (auto simp: dll_Cons simp del: dll.simps)

lemma lru_keys_struct: "lru_struct l as \<Longrightarrow> lru_keys l = keys_of l as"
  by (simp add: lru_struct_def lru_list_def lru_keys_def keys_of_def) (metis walk_dll)

subsection \<open>The tracker keeps its invariant\<close>


lemma set_next_frame [simp]:
  "lru_map (set_next l a n) = lru_map l" "fresh (set_next l a n) = fresh l"
  "capacity (set_next l a n) = capacity l" "head (set_next l a n) = head l"
  "tail (set_next l a n) = tail l"
  "node_key (heap (set_next l a n) b) = node_key (heap l b)"
  by (simp_all add: set_next_def)

lemma set_prev_frame [simp]:
  "lru_map (set_prev l a n) = lru_map l" "fresh (set_prev l a n) = fresh l"
  "capacity (set_prev l a n) = capacity l" "head (set_prev l a n) = head l"
  "tail (set_prev l a n) = tail l"
  "node_key (heap (set_prev l a n) b) = node_key (heap l b)"
  by (simp_all add: set_prev_def)

lemma removeNode_frame [simp]:
  "fresh (removeNode l a) = fresh l"
  "capacity (removeNode l a) = capacity l"
  "node_key (heap (removeNode l a) b) = node_key (heap l b)"
  by (simp_all add: removeNode_def Let_def split: option.splits)

lemma addToFront_frame [simp]:
  "lru_map (addToFront l a) = lru_map l"
  "fresh (addToFront l a) = fresh l"
  "capacity (addToFront l a) = capacity l"
  "node_key (heap (addToFront l a) b) = node_key (heap l b)"
  by (simp_all add: addToFront_def Let_def split: option.splits)

lemma lru_list_frame [simp]:
  "lru_list (l\<lparr>lru_map := m\<rparr>) as = lru_list l as"
  "lru_list (l\<lparr>fresh := f\<rparr>) as = lru_list l as"
  by (simp_all add: lru_list_def)

lemma keys_of_frame [simp]:
  "keys_of (l\<lparr>lru_map := m\<rparr>) as = keys_of l as"
  "keys_of (removeNode l a) as = keys_of l as"
  "keys_of (addToFront l a) as = keys_of l as"
  by (simp_all add: keys_of_def)

lemma keys_of_simps [simp]:
  "keys_of l [] = []" "keys_of l (a # as) = node_key (heap l a) # keys_of l as"
  "keys_of l (xs @ ys) = keys_of l xs @ keys_of l ys"
  by (simp_all add: keys_of_def)

lemma inv_mem: "lru_struct l as \<Longrightarrow> map_of (lru_map l) k = Some a \<Longrightarrow> a \<in> set as \<and> node_key (heap l a) = k"
  by (simp add: lru_struct_def)

lemma inv_key_inj:
  "lru_struct l as \<Longrightarrow> a \<in> set as \<Longrightarrow> b \<in> set as \<Longrightarrow> node_key (heap l a) = node_key (heap l b) \<Longrightarrow> a = b"
  by (metis lru_struct_def option.inject)

lemma inv_keys_distinct:
  assumes "lru_struct l as"
  shows "distinct (keys_of l as)"
proof -
  have "inj_on (\<lambda>a. node_key (heap l a)) (set as)"
    using inv_key_inj [OF assms] by (auto simp: inj_on_def)
  moreover have "distinct as"
    using assms by (simp add: lru_struct_def lru_list_def)
  ultimately show ?thesis
    by (simp add: keys_of_def distinct_map)
qed

lemma inv_has: "lru_struct l as \<Longrightarrow> has l k = (k \<in> set (keys_of l as))"
  by (auto simp: has_def keys_of_def lru_struct_def)

lemma length_alist_delete:
  "distinct (map fst m) \<Longrightarrow> map_of m k = Some a \<Longrightarrow> Suc (length (AList.delete k m)) = length m"
proof (induction m)
  case Nil
  then show ?case by simp
next
  case (Cons p m)
  show ?case
  proof (cases "fst p = k")
    case True
    with Cons.prems have "k \<notin> fst ` set m" by auto
    then have "AList.delete k m = m" by (rule AList.delete_id)
    with True show ?thesis by simp
  next
    case False
    with Cons show ?thesis by (auto split: if_splits)
  qed
qed

lemma length_alist_update_new:
  "map_of m k = None \<Longrightarrow> length (AList.update k a m) = Suc (length m)"
  by (induction m) auto

lemma new_struct: "lru_struct (new_FastLRU cap) []"
  by (simp add: lru_struct_def lru_list_def new_FastLRU_def)

lemma lru_clear_struct: "lru_struct (lru_clear l) []"
  by (simp add: lru_struct_def lru_list_def lru_clear_def)

lemma remove_struct:
  assumes inv: "lru_struct l (xs @ a # ys)"
  shows "lru_struct ((removeNode l a)\<lparr>lru_map := AList.delete (node_key (heap l a)) (lru_map l)\<rparr>) (xs @ ys)"
    and "keys_of l (xs @ ys) = removeAll (node_key (heap l a)) (keys_of l (xs @ a # ys))"
proof -
  let ?k = "node_key (heap l a)"
  let ?l = "(removeNode l a)\<lparr>lru_map := AList.delete ?k (lru_map l)\<rparr>"
  from inv have ma: "map_of (lru_map l) ?k = Some a"
    by (simp add: lru_struct_def)
  from inv have dk: "distinct (keys_of l (xs @ a # ys))"
    by (rule inv_keys_distinct)
  then show "keys_of l (xs @ ys) = removeAll ?k (keys_of l (xs @ a # ys))"
    by (simp add: removeAll_id)
  have other: "b \<in> set (xs @ ys) \<longleftrightarrow> b \<in> set (xs @ a # ys) \<and> node_key (heap l b) \<noteq> ?k" for b
    using inv inv_key_inj [OF inv, of b a] by (auto simp: lru_struct_def lru_list_def)
  have "lru_list ?l (xs @ ys)"
    using inv by (simp add: lru_struct_def removeNode_list)
  moreover have "distinct (map fst (lru_map ?l))"
    using inv by (simp add: lru_struct_def distinct_delete)
  moreover have "\<forall>k b. map_of (lru_map ?l) k = Some b \<longleftrightarrow> b \<in> set (xs @ ys) \<and> node_key (heap ?l b) = k"
    using inv other by (auto simp: lru_struct_def AList.delete_conv')
  moreover have "length (lru_map ?l) = length (xs @ ys)"
    using inv length_alist_delete [OF _ ma] by (simp add: lru_struct_def)
  moreover have "\<forall>b \<in> set (xs @ ys). b < fresh ?l"
    using inv by (auto simp: lru_struct_def)
  ultimately show "lru_struct ?l (xs @ ys)"
    unfolding lru_struct_def by blast
qed


lemma removeNode_lru_map_upd:
  "removeNode (l\<lparr>lru_map := m\<rparr>) a = (removeNode l a)\<lparr>lru_map := m\<rparr>"
  by (simp add: removeNode_def set_next_def set_prev_def Let_def split: option.splits)

lemma struct_length: "lru_struct l as \<Longrightarrow> length (keys_of l as) = length (lru_map l)"
  by (simp add: lru_struct_def keys_of_def)

lemma lru_delete_struct:
  assumes "lru_struct l as"
  shows "\<exists>as'. lru_struct (lru_delete l k) as' \<and> length as' \<le> length as \<and>
           keys_of (lru_delete l k) as' = removeAll k (keys_of l as)"
proof (cases "map_of (lru_map l) k")
  case None
  with assms have "k \<notin> set (keys_of l as)"
    using inv_has [OF assms, of k] by (simp add: has_def)
  with None assms show ?thesis
    by (auto simp: lru_delete_def intro!: exI [of _ as])
next
  case (Some a)
  with assms have a: "a \<in> set as" "node_key (heap l a) = k"
    by (simp_all add: inv_mem)
  then obtain xs ys where as: "as = xs @ a # ys"
    by (auto simp: in_set_conv_decomp)
  have eq: "lru_delete l k = (removeNode l a)\<lparr>lru_map := AList.delete (node_key (heap l a)) (lru_map l)\<rparr>"
    using Some a by (simp add: lru_delete_def Let_def removeNode_lru_map)
  show ?thesis
    using remove_struct [of l xs a ys] assms a
    unfolding eq as by (auto intro!: exI [of _ "xs @ ys"])
qed

lemma moveToFront_struct:
  assumes "lru_struct l as" "a \<in> set as"
  shows "\<exists>as'. lru_struct (moveToFront l a) as' \<and> length as' = length as \<and>
           keys_of (moveToFront l a) as' =
             node_key (heap l a) # removeAll (node_key (heap l a)) (keys_of l as)"
proof (cases "head l = Some a")
  case True
  with assms obtain bs where as: "as = a # bs"
    by (cases as) (auto simp: lru_struct_def lru_list_def)
  from inv_keys_distinct [OF assms(1)] have "node_key (heap l a) \<notin> set (keys_of l bs)"
    by (simp add: as)
  with True assms show ?thesis
    by (auto simp: moveToFront_def as intro!: exI [of _ as])
next
  case False
  from assms obtain xs ys where as: "as = xs @ a # ys"
    by (auto simp: in_set_conv_decomp)
  let ?l = "addToFront (removeNode l a) a"
  from assms have d: "a \<notin> set (xs @ ys)"
    by (auto simp: as lru_struct_def lru_list_def)
  have "lru_list (removeNode l a) (xs @ ys)"
    using assms by (simp add: as lru_struct_def removeNode_list)
  then have "lru_list ?l (a # xs @ ys)"
    using d by (rule addToFront_list)
  moreover have "\<forall>k b. map_of (lru_map ?l) k = Some b \<longleftrightarrow> b \<in> set (a # xs @ ys) \<and> node_key (heap ?l b) = k"
    using assms by (auto simp: as lru_struct_def removeNode_lru_map)
  ultimately have "lru_struct ?l (a # xs @ ys)"
    using assms by (auto simp: lru_struct_def as removeNode_lru_map)
  moreover have "keys_of ?l (a # xs @ ys) = node_key (heap l a) # removeAll (node_key (heap l a)) (keys_of l as)"
    using inv_keys_distinct [OF assms(1)] by (simp add: as removeAll_id)
  ultimately show ?thesis
    using False by (auto simp: moveToFront_def as intro!: exI [of _ "a # xs @ ys"])
qed


lemma touch_capacity [simp]: "capacity (touch l k) = capacity l"
  by (simp add: touch_def moveToFront_def removeLRU_def Let_def removeNode_lru_map_upd split: option.splits)

lemma lru_delete_capacity [simp]: "capacity (lru_delete l k) = capacity l"
  by (simp add: lru_delete_def Let_def split: option.splits)

lemma lru_clear_capacity [simp]: "capacity (lru_clear l) = capacity l"
  by (simp add: lru_clear_def)

lemma touch_new_struct:
  assumes st: "lru_struct l as" and new: "map_of (lru_map l) k = None"
  defines "l3 \<equiv> addToFront (l\<lparr>heap := (heap l)(fresh l := new_LRUNode k), fresh := Suc (fresh l),
                               lru_map := AList.update k (fresh l) (lru_map l)\<rparr>) (fresh l)"
  shows "lru_struct l3 (fresh l # as)" and "keys_of l3 (fresh l # as) = k # keys_of l as"
    and "capacity l3 = capacity l"
proof -
  let ?a = "fresh l"
  let ?l2 = "l\<lparr>heap := (heap l)(?a := new_LRUNode k), fresh := Suc ?a,
               lru_map := AList.update k ?a (lru_map l)\<rparr>"
  from st have fr: "?a \<notin> set as"
    by (auto simp: lru_struct_def)
  from st fr have "lru_list ?l2 as"
    by (simp add: lru_struct_def lru_list_def dll_upd_notin)
  then have ll: "lru_list l3 (?a # as)"
    unfolding l3_def using fr by (rule addToFront_list)
  have hk: "node_key (heap l3 b) = (if b = ?a then k else node_key (heap l b))" for b
    by (simp add: l3_def new_LRUNode_def)
  from st new have nk: "\<forall>b \<in> set as. node_key (heap l b) \<noteq> k"
    by (auto simp: lru_struct_def)
  have "\<forall>k' b. map_of (lru_map l3) k' = Some b \<longleftrightarrow> b \<in> set (?a # as) \<and> node_key (heap l3 b) = k'"
    using st fr nk by (auto simp: l3_def new_LRUNode_def lru_struct_def AList.update_conv')
  moreover have "length (lru_map l3) = length (?a # as)"
    using st new by (simp add: l3_def lru_struct_def length_alist_update_new)
  moreover have "distinct (map fst (lru_map l3))"
    using st by (simp add: l3_def lru_struct_def distinct_update)
  moreover have "\<forall>b \<in> set (?a # as). b < fresh l3"
    using st by (auto simp: l3_def lru_struct_def less_Suc_eq)
  ultimately show "lru_struct l3 (?a # as)"
    using ll unfolding lru_struct_def by blast
  show "keys_of l3 (?a # as) = k # keys_of l as"
    using fr by (auto simp: keys_of_def hk)
  show "capacity l3 = capacity l"
    by (simp add: l3_def)
qed

lemma touch_inv:
  assumes inv: "lru_inv l as"
  shows "\<exists>as'. lru_inv (touch l k) as' \<and>
           keys_of (touch l k) as' = take (capacity l) (k # removeAll k (keys_of l as))"
proof (cases "map_of (lru_map l) k")
  case (Some a)
  from inv have st: "lru_struct l as" and cap: "length as \<le> capacity l"
    by (simp_all add: lru_inv_def)
  from st Some have a: "a \<in> set as" "node_key (heap l a) = k"
    by (simp_all add: inv_mem)
  from moveToFront_struct [OF st a(1)] obtain as' where
    as': "lru_struct (moveToFront l a) as'" "length as' = length as"
      "keys_of (moveToFront l a) as' = k # removeAll k (keys_of l as)"
    by (auto simp: a)
  have "length (k # removeAll k (keys_of l as)) \<le> capacity l"
    using as' cap by (metis length_map keys_of_def)
  then have "take (capacity l) (k # removeAll k (keys_of l as)) = k # removeAll k (keys_of l as)"
    by (rule take_all)
  with as' cap Some show ?thesis
    by (auto simp: touch_def lru_inv_def moveToFront_def intro!: exI [of _ as'])
next
  case None
  from inv have st: "lru_struct l as" and cap: "length as \<le> capacity l"
    by (simp_all add: lru_inv_def)
  let ?a = "fresh l"
  define l3 where "l3 = addToFront (l\<lparr>heap := (heap l)(fresh l := new_LRUNode k), fresh := Suc (fresh l),
                               lru_map := AList.update k (fresh l) (lru_map l)\<rparr>) (fresh l)"
  note l3 = touch_new_struct [OF st None, folded l3_def]
  have tch: "touch l k = (if length (lru_map l3) > capacity l3 then removeLRU l3 else l3)"
    using None by (simp add: touch_def Let_def l3_def)
  have len: "length (lru_map l3) = Suc (length as)"
    using l3(1) by (simp add: lru_struct_def)
  from st None have nk: "k \<notin> set (keys_of l as)"
    using inv_has [OF st, of k] by (simp add: has_def)
  show ?thesis
  proof (cases "Suc (length as) > capacity l")
    case False
    then have "take (capacity l) (k # keys_of l as) = k # keys_of l as"
      by (simp add: keys_of_def)
    with False l3 len nk show ?thesis
      by (auto simp: tch lru_inv_def removeAll_id intro!: exI [of _ "?a # as"])
  next
    case True
    with cap have ceq: "capacity l = length as" by simp
    obtain xs t where xs: "?a # as = xs @ [t]"
      by (metis list.distinct(1) rev_exhaust)
    then have tl: "tail l3 = Some t"
      using l3(1) by (simp add: lru_struct_def lru_list_def)
    have rm: "removeLRU l3 = (removeNode l3 t)\<lparr>lru_map := AList.delete (node_key (heap l3 t)) (lru_map l3)\<rparr>"
      by (simp add: removeLRU_def tl removeNode_lru_map_upd)
    from l3(1) have st3: "lru_struct l3 (xs @ t # [])"
      by (simp add: xs)
    note r = remove_struct [OF st3]
    have "length xs = length as"
      using xs by (metis length_Cons length_append_singleton nat.inject)
    moreover have "keys_of l3 xs = butlast (k # keys_of l as)"
    proof -
      have "keys_of l3 (xs @ [t]) = k # keys_of l as"
        using l3(2) by (simp only: xs)
      from arg_cong [OF this, of butlast] show ?thesis
        by (simp only: keys_of_simps butlast_snoc)
    qed
    moreover have "butlast (k # keys_of l as) = take (length as) (k # keys_of l as)"
      by (simp add: butlast_conv_take keys_of_def)
    ultimately show ?thesis
      using r True len l3(3) nk ceq
      by (auto simp: tch rm lru_inv_def removeAll_id intro!: exI [of _ xs])
  qed
qed

lemma wf_new: "wf_lru (new_FastLRU cap)" "lru_keys (new_FastLRU cap) = []"
  using new_struct [of cap] by (auto simp: wf_lru_def lru_inv_def lru_keys_struct)

lemma wf_touch:
  assumes "wf_lru l"
  shows "wf_lru (touch l k)"
    and "lru_keys (touch l k) = take (capacity l) (k # removeAll k (lru_keys l))"
proof -
  from assms obtain as where as: "lru_inv l as"
    by (auto simp: wf_lru_def)
  from touch_inv [OF as, of k] obtain as' where as': "lru_inv (touch l k) as'"
    "keys_of (touch l k) as' = take (capacity l) (k # removeAll k (keys_of l as))"
    by blast
  from as' show "wf_lru (touch l k)"
    by (auto simp: wf_lru_def)
  from as as' have "lru_struct l as" "lru_struct (touch l k) as'"
    by (simp_all add: lru_inv_def)
  with as' show "lru_keys (touch l k) = take (capacity l) (k # removeAll k (lru_keys l))"
    by (simp add: lru_keys_struct)
qed

lemma wf_lru_delete:
  assumes "wf_lru l"
  shows "wf_lru (lru_delete l k)"
    and "lru_keys (lru_delete l k) = removeAll k (lru_keys l)"
proof -
  from assms obtain as where as: "lru_struct l as" "length as \<le> capacity l"
    by (auto simp: wf_lru_def lru_inv_def)
  from lru_delete_struct [OF as(1), of k] obtain as' where as': "lru_struct (lru_delete l k) as'"
    "length as' \<le> length as" "keys_of (lru_delete l k) as' = removeAll k (keys_of l as)"
    by blast
  from as as' show "wf_lru (lru_delete l k)"
    by (auto simp: wf_lru_def lru_inv_def)
  from as as' show "lru_keys (lru_delete l k) = removeAll k (lru_keys l)"
    by (simp add: lru_keys_struct)
qed

lemma wf_lru_clear: "wf_lru (lru_clear l)" "lru_keys (lru_clear l) = []"
  using lru_clear_struct [of l] by (auto simp: wf_lru_def lru_inv_def lru_keys_struct)

lemma wf_facts:
  assumes "wf_lru l"
  shows "length (lru_map l) \<le> capacity l"
    and "length (lru_keys l) = length (lru_map l)"
    and "distinct (lru_keys l)"
    and "has l k = (k \<in> set (lru_keys l))"
proof -
  from assms obtain as where as: "lru_struct l as" "length as \<le> capacity l"
    by (auto simp: wf_lru_def lru_inv_def)
  then show "length (lru_map l) \<le> capacity l"
    by (simp add: lru_struct_def)
  from as show "length (lru_keys l) = length (lru_map l)"
    by (simp add: lru_keys_struct struct_length)
  from as show "distinct (lru_keys l)"
    by (simp add: lru_keys_struct inv_keys_distinct)
  from as show "has l k = (k \<in> set (lru_keys l))"
    by (simp add: lru_keys_struct inv_has)
qed

text \<open>Touching keys one after the other, on lists of keys.\<close>

lemma take_removeAll_take:
  "distinct xs \<Longrightarrow> take m (removeAll k (take (Suc m) xs)) = take m (removeAll k xs)"
proof (induction xs arbitrary: m)
  case Nil
  show ?case by simp
next
  case (Cons x xs)
  show ?case
  proof (cases m)
    case 0
    then show ?thesis by simp
  next
    case (Suc m')
    show ?thesis
    proof (cases "x = k")
      case True
      with Cons.prems have "k \<notin> set xs" by simp
      then have "k \<notin> set (take (Suc m') xs)" by (auto dest: in_set_takeD)
      with True \<open>k \<notin> set xs\<close> show ?thesis
        by (simp add: Suc)
    next
      case False
      with Cons show ?thesis by (simp add: Suc)
    qed
  qed
qed

lemma remdups_snoc: "remdups (ks @ [k]) = removeAll k (remdups ks) @ [k]"
  by (induction ks) auto

lemma rev_removeAll: "rev (removeAll k xs) = removeAll k (rev xs)"
  by (induction xs) auto

lemma recent_step:
  "rev (remdups (ks @ [k])) = k # removeAll k (rev (remdups ks))"
  by (simp add: remdups_snoc rev_removeAll)

lemma touches_from_new:
  "wf_lru (foldl touch (new_FastLRU cap) ks) \<and>
   capacity (foldl touch (new_FastLRU cap) ks) = cap \<and>
   lru_keys (foldl touch (new_FastLRU cap) ks) = take cap (rev (remdups ks))"
proof (induction ks rule: rev_induct)
  case Nil
  show ?case by (simp add: wf_new) (simp add: new_FastLRU_def)
next
  case (snoc k ks)
  let ?l = "foldl touch (new_FastLRU cap) ks"
  have d: "distinct (rev (remdups ks))" by simp
  have "take cap (k # removeAll k (take cap (rev (remdups ks)))) =
        take cap (k # removeAll k (rev (remdups ks)))"
    using take_removeAll_take [OF d, of "cap - 1" k] by (cases cap) simp_all
  with snoc show ?case
    by (simp add: wf_touch recent_step)
qed

subsection \<open>Every call keeps the instance well formed\<close>

lemma distinct_foldl_set_expire:
  "distinct (map fst (mem_entries m)) \<Longrightarrow>
   distinct (map fst (mem_entries (foldl (\<lambda>m it. mem_set_expire m (item_key it) (item_value it)
     (item_expires it)) m its)))"
  by (induction its arbitrary: m) (simp_all add: mem_set_expire_def distinct_mem_store)

lemma fc_set_ok: "inst_ok c \<Longrightarrow> inst_ok (fc_set c now k v ttl)"
  by (simp add: inst_ok_def fc_set_def scheduleBatchWrite_fields wf_touch mem_set_def
      distinct_mem_store Let_def)

lemma fc_get_ok: "inst_ok c \<Longrightarrow> inst_ok (snd (fc_get c now k))"
  by (simp add: inst_ok_def fc_get_def wf_touch wf_lru_delete Let_def split: option.splits)

lemma fc_delete_ok: "inst_ok c \<Longrightarrow> inst_ok (fc_delete c k)"
  by (simp add: inst_ok_def fc_delete_def emit_def wf_lru_delete mem_delete_def distinct_delete)

lemma save_ok: "inst_ok c \<Longrightarrow> inst_ok (fst (save c fs now force))"
  by (simp add: inst_ok_def save_fields)

lemma emit_fields [simp]:
  "lruCache (emit e c) = lruCache c" "cache (emit e c) = cache c"
  by (simp_all add: emit_def)

lemma fc_clear_ok: "inst_ok (fst (fc_clear c fs now))"
  by (simp add: inst_ok_def fc_clear_def case_prod_beta save_fields wf_lru_clear mem_clear_def
      Let_def)

lemma destroy_ok: "inst_ok (fst (destroy c fs b))"
  by (simp add: inst_ok_def destroy_def stopAutoPersist_def flushPendingWrites_fields
      wf_lru_clear mem_clear_def Let_def split: sum.splits option.splits)

lemma loadFile_ok:
  "inst_ok c \<Longrightarrow> inst_ok (case loadFile c fs p of Inr c1 \<Rightarrow> c1 | Inl (e, c1) \<Rightarrow> c1)"
  by (simp add: inst_ok_def loadFile_def distinct_foldl_set_expire split: sum.splits)

lemma load_ok:
  assumes "inst_ok c"
  shows "inst_ok (load c fs i d)"
  using loadFile_ok [OF assms, of fs "resolve ((case d of Some d \<Rightarrow> d | None \<Rightarrow> cacheDir c) @ ''/'' @
                              (case i of Some i \<Rightarrow> i | None \<Rightarrow> cacheId c))"]
  by (auto simp: load_def inst_ok_def Let_def split: sum.splits prod.splits)

lemma loadFileStream_ok:
  "inst_ok c \<Longrightarrow>
   inst_ok (case loadFileStream c fs p n b of Inr (c1, calls) \<Rightarrow> c1 | Inl (e, c1, calls) \<Rightarrow> c1)"
  by (simp add: inst_ok_def loadFileStream_def distinct_foldl_set_expire Let_def split: sum.splits)

lemma removeCacheFile_ok: "inst_ok c \<Longrightarrow> inst_ok (fst (snd (removeCacheFile c fs)))"
  by (simp add: inst_ok_def removeCacheFile_def split: sum.splits)

lemma step_ok: "inst_ok (inst w) \<Longrightarrow> inst_ok (inst (step w c))"
proof (cases c)
  case (Set k v ttl)
  then show "inst_ok (inst w) \<Longrightarrow> ?thesis" by (simp add: fc_set_ok)
next
  case (Get k)
  then show "inst_ok (inst w) \<Longrightarrow> ?thesis" by (simp add: fc_get_ok)
next
  case (Delete k)
  then show "inst_ok (inst w) \<Longrightarrow> ?thesis" by (simp add: fc_delete_ok)
next
  case Clear
  then show "inst_ok (inst w) \<Longrightarrow> ?thesis"
    using fc_clear_ok [of "inst w" "disk w" "clock w"] by (simp add: case_prod_beta)
next
  case (Save force)
  then show "inst_ok (inst w) \<Longrightarrow> ?thesis"
    using save_ok [of "inst w" "disk w" "clock w" force] by (simp add: case_prod_beta)
next
  case (Load i d)
  then show "inst_ok (inst w) \<Longrightarrow> ?thesis" by (simp add: load_ok)
next
  case (LoadFile p)
  then show "inst_ok (inst w) \<Longrightarrow> ?thesis"
    using loadFile_ok [of "inst w" "disk w" p] by (auto split: sum.splits)
next
  case (LoadFileStream p n b)
  then show "inst_ok (inst w) \<Longrightarrow> ?thesis"
    using loadFileStream_ok [of "inst w" "disk w" p n b] by (auto split: sum.splits)
next
  case RemoveCacheFile
  then show "inst_ok (inst w) \<Longrightarrow> ?thesis"
    using removeCacheFile_ok [of "inst w" "disk w"] by (simp add: case_prod_beta)
next
  case (Destroy b)
  then show "inst_ok (inst w) \<Longrightarrow> ?thesis"
    using destroy_ok [of "inst w" "disk w" b] by (simp add: case_prod_beta)
next
  case PersistTimerFires
  then show "inst_ok (inst w) \<Longrightarrow> ?thesis"
    using save_ok [of "inst w" "disk w" "clock w" False]
    by (simp add: case_prod_beta persistTimer_fires_def split: option.splits)
qed (simp_all add: inst_ok_def startAutoPersist_def stopAutoPersist_def batchWriteTimer_fires_def
       flushPendingWrites_fields Let_def split: option.splits)

lemma new_ok: "inst_ok (new_FlatCache prs str options)"
  by (simp add: inst_ok_def new_FlatCache_def startAutoPersist_def wf_new mem_new_def Let_def
      split: option.splits)

lemma run_ok: "inst_ok (inst w) \<Longrightarrow> inst_ok (inst (run w cs))"
  unfolding run_def by (induction cs arbitrary: w) (simp_all add: step_ok)

lemma step_capacity:
  "capacity (lruCache (inst (step w c))) = capacity (lruCache (inst w))"
  by (cases c)
    (simp_all add: fc_set_def fc_get_def fc_delete_def fc_clear_def destroy_def load_def
      loadFile_def loadFileStream_def removeCacheFile_def persistTimer_fires_def
      batchWriteTimer_fires_def startAutoPersist_def stopAutoPersist_def
      scheduleBatchWrite_fields flushPendingWrites_fields save_fields case_prod_beta Let_def
      split: option.splits sum.splits)

lemma run_capacity:
  "capacity (lruCache (inst (run w cs))) = capacity (lruCache (inst w))"
  unfolding run_def by (induction cs arbitrary: w) (simp_all add: step_capacity)

lemma new_capacity:
  "capacity (lruCache (new_FlatCache prs str options)) =
     (case opt_inMemoryLruSize options of Some n \<Rightarrow> n | None \<Rightarrow> 1000)"
  by (simp add: new_FlatCache_def startAutoPersist_def new_FastLRU_def Let_def split: option.splits)

subsection \<open>The threshold of the Write Coalescer is never reached\<close>

lemma new_pending: "pending_ok (new_FlatCache prs str options)"
  by (simp add: pending_ok_def new_FlatCache_def startAutoPersist_def Let_def split: option.splits)

lemma fc_set_pending: "pending_ok c \<Longrightarrow> pending_ok (fc_set c now k v ttl)"
  by (cases "batchWriteTimer c")
    (auto simp: pending_ok_def fc_set_def scheduleBatchWrite_def flushPendingWrites_done)

lemma save_pending: "pending_ok c \<Longrightarrow> pending_ok (fst (save c fs now force))"
  by (auto simp: pending_ok_def save_def save_try_def emit_def flushPendingWrites_done Let_def
      split: if_splits option.splits sum.splits)

lemma fc_clear_pending: "pending_ok (fst (fc_clear c fs now))"
proof -
  have "pending_ok (c\<lparr>cache := mem_clear (cache c), lruCache := lru_clear (lruCache c),
      changesSinceLastSave := True, serializationCacheValid := False, pendingWrites := []\<rparr>)"
    by (simp add: pending_ok_def)
  from save_pending [OF this] show ?thesis
    by (simp add: fc_clear_def case_prod_beta pending_ok_def emit_def Let_def)
qed

lemma destroy_pending: "pending_ok (fst (destroy c fs b))"
  by (simp add: pending_ok_def destroy_def stopAutoPersist_def emit_def flushPendingWrites_done
      Let_def split: sum.splits option.splits)

lemma step_pending: "pending_ok (inst w) \<Longrightarrow> pending_ok (inst (step w c))"
proof (cases c)
  case (Set k v ttl)
  then show "pending_ok (inst w) \<Longrightarrow> ?thesis" by (simp add: fc_set_pending)
next
  case Clear
  then show "pending_ok (inst w) \<Longrightarrow> ?thesis"
    using fc_clear_pending [of "inst w" "disk w" "clock w"] by (simp add: case_prod_beta)
next
  case (Save force)
  then show "pending_ok (inst w) \<Longrightarrow> ?thesis"
    using save_pending [of "inst w" "disk w" "clock w" force] by (simp add: case_prod_beta)
next
  case (Destroy b)
  then show "pending_ok (inst w) \<Longrightarrow> ?thesis"
    using destroy_pending [of "inst w" "disk w" b] by (simp add: case_prod_beta)
next
  case PersistTimerFires
  then show "pending_ok (inst w) \<Longrightarrow> ?thesis"
    using save_pending [of "inst w" "disk w" "clock w" False]
    by (simp add: case_prod_beta persistTimer_fires_def split: option.splits)
qed (auto simp: pending_ok_def fc_get_def fc_delete_def load_def loadFile_def loadFileStream_def
       removeCacheFile_def emit_def startAutoPersist_def stopAutoPersist_def
       batchWriteTimer_fires_def flushPendingWrites_done case_prod_beta Let_def
       split: option.splits sum.splits if_splits)

lemma run_pending: "pending_ok (inst w) \<Longrightarrow> pending_ok (inst (run w cs))"
  unfolding run_def by (induction cs arbitrary: w) (simp_all add: step_pending)

text \<open>
  In an instance as the constructor builds it and any calls have left it, nothing
  is pending while no flush is scheduled. So \<open>scheduleBatchWrite\<close> compares the size
  with the threshold only when the set holds the one key just recorded: with a
  threshold of 2 or more, the default 10 among them, no \<open>set\<close> ever flushes.
\<close>

lemma threshold_branch_dead:
  assumes "c = inst (run \<lparr>inst = new_FlatCache prs str options, disk = d, clock = t0\<rparr> calls)"
    and "2 \<le> batchWriteSize c"
  shows "pendingWrites (fc_set c now k v ttl) \<noteq> [] \<and> batchWriteTimer (fc_set c now k v ttl) \<noteq> None"
proof -
  have ok: "pending_ok c"
    unfolding assms(1) by (rule run_pending) (simp add: new_pending)
  show ?thesis
  proof (cases "batchWriteTimer c")
    case None
    with ok have "pendingWrites c = []"
      by (simp add: pending_ok_def)
    with None assms(2) show ?thesis
      by (simp add: fc_set_def scheduleBatchWrite_def)
  next
    case (Some t)
    then show ?thesis
      by (simp add: fc_set_def scheduleBatchWrite_def)
  qed
qed

lemma walk_dll_take: "dll h p as None \<Longrightarrow> walk h (first_of as None) n = take n as"
proof (induction as arbitrary: p n)
  case Nil
  show ?case by simp
next
  case (Cons a as)
  then show ?case
    by (cases n) (auto simp: dll_Cons simp del: dll.simps)
qed

lemma wf_walk:
  assumes "wf_lru l"
  shows "map (\<lambda>a. node_key (heap l a)) (walk (heap l) (head l) n) = take n (lru_keys l)"
proof -
  from assms obtain as where st: "lru_struct l as"
    by (auto simp: wf_lru_def lru_inv_def)
  then have "walk (heap l) (head l) n = take n as"
    by (simp add: lru_struct_def lru_list_def) (metis walk_dll_take)
  with st show ?thesis
    by (simp add: lru_keys_struct keys_of_def take_map)
qed

subsection \<open>delete, then get\<close>

text \<open>
  C8. After \<open>delete(k)\<close>, \<open>get(k)\<close> returns absent at any time, and \<open>k\<close> is neither
  among the keys of the Memory Store nor in the Recency Tracker; this is so right
  after the \<open>delete\<close> and still so after the \<open>get\<close>. In the tracker of an instance
  as the constructor builds it and any calls have left it, \<open>k\<close> is absent from
  the \<open>Map\<close> and from the linked list, from which \<open>delete\<close> unlinks the node of
  \<open>k\<close> and no other: however far one walks from \<open>head\<close> along \<open>next\<close>, no node
  with the key \<open>k\<close> is met.
\<close>

theorem delete_then_absent:
  "fst (fc_get (fc_delete c k) now k) = None \<and>
   k \<notin> set (keys (fc_delete c k) now) \<and>
   \<not> has (lruCache (fc_delete c k)) k \<and>
   k \<notin> set (keys (snd (fc_get (fc_delete c k) now k)) now) \<and>
   \<not> has (lruCache (snd (fc_get (fc_delete c k) now k))) k \<and>
   (let r = inst (run \<lparr>inst = new_FlatCache prs str options, disk = d, clock = t0\<rparr> calls)
    in lru_keys (lruCache (fc_delete r k)) = removeAll k (lru_keys (lruCache r)) \<and>
       k \<notin> set (lru_keys (lruCache (fc_delete r k))) \<and>
       k \<notin> set (map (\<lambda>a. node_key (heap (lruCache (fc_delete r k)) a))
                  (walk (heap (lruCache (fc_delete r k))) (head (lruCache (fc_delete r k))) n)) \<and>
       k \<notin> set (lru_keys (lruCache (snd (fc_get (fc_delete r k) now k)))))"
proof -
  let ?r = "inst (run \<lparr>inst = new_FlatCache prs str options, disk = d, clock = t0\<rparr> calls)"
  have "inst_ok ?r"
    by (rule run_ok) (simp add: new_ok)
  then have wf: "wf_lru (lruCache ?r)"
    by (simp add: inst_ok_def)
  have del: "lruCache (fc_delete ?r k) = lru_delete (lruCache ?r) k"
    by (simp add: fc_delete_def emit_def)
  have got: "lruCache (snd (fc_get (fc_delete ?r k) now k)) =
      lru_delete (lru_delete (lruCache ?r) k) k"
    by (simp add: fc_get_def fc_delete_def emit_def mem_get_delete Let_def)
  note wf1 = wf_lru_delete [OF wf, of k]
  note wf2 = wf_lru_delete(2) [OF wf1(1), of k]
  have list: "lru_keys (lruCache (fc_delete ?r k)) = removeAll k (lru_keys (lruCache ?r))"
    "k \<notin> set (lru_keys (lruCache (fc_delete ?r k)))"
    "k \<notin> set (lru_keys (lruCache (snd (fc_get (fc_delete ?r k) now k))))"
    by (simp_all add: del got wf1(2) wf2)
  have "k \<notin> set (take n (lru_keys (lruCache (fc_delete ?r k))))"
    using list(2) by (auto dest: in_set_takeD)
  then have far: "k \<notin> set (map (\<lambda>a. node_key (heap (lruCache (fc_delete ?r k)) a))
                  (walk (heap (lruCache (fc_delete ?r k))) (head (lruCache (fc_delete ?r k))) n))"
    using wf_walk [OF wf1(1), of n] by (simp add: del)
  have store: "fst (fc_get (fc_delete c k) now k) = None"
    "k \<notin> set (keys (fc_delete c k) now)"
    "\<not> has (lruCache (fc_delete c k)) k"
    "k \<notin> set (keys (snd (fc_get (fc_delete c k) now k)) now)"
    "\<not> has (lruCache (snd (fc_get (fc_delete c k) now k))) k"
    by (simp_all add: fc_get_def fc_delete_def emit_def keys_def mem_get_delete mem_keys_delete
        has_lru_delete Let_def)
  show ?thesis
    unfolding Let_def using list far store by blast
qed

subsection \<open>The Recency Tracker\<close>

text \<open>
  C7. Take an instance as the constructor builds it and any calls on it. The tracker
  then holds at most as many keys as its configured capacity (the option
  \<open>inMemoryLruSize\<close>, 1000 by default), and the keys it holds are those of its list,
  from most to least recently used. A touch puts the key in front, keeps the other
  keys in their order and drops what lies beyond the capacity: the least recently
  touched. So, from a new tracker, touching the keys \<open>ks\<close> one after the other
  leaves exactly the \<open>cap\<close> most recently touched distinct keys, in that order.
  The Memory Store never learns of it: \<open>set\<close> changes the store by the store's own
  \<open>set\<close> only, and \<open>get\<close> answers what the store answers, whatever the tracker
  holds, and leaves the store as it is.
\<close>

theorem tracker_bounded_and_advisory:
  "(let c = inst (run \<lparr>inst = new_FlatCache prs str options, disk = d, clock = t0\<rparr> calls);
        l = lruCache c
    in capacity l = (case opt_inMemoryLruSize options of Some n \<Rightarrow> n | None \<Rightarrow> 1000) \<and>
       length (lru_map l) \<le> capacity l \<and>
       length (lru_keys l) = length (lru_map l) \<and>
       has l k = (k \<in> set (lru_keys l)) \<and>
       lru_keys (touch l k) = take (capacity l) (k # removeAll k (lru_keys l)) \<and>
       cache (fc_set c now k v ttl) = mem_set (cache c) now k v ttl \<and>
       fst (fc_get c now k) = mem_get (cache c) now k \<and>
       cache (snd (fc_get c now k)) = cache c) \<and>
   lru_keys (foldl touch (new_FastLRU cap) ks) = take cap (rev (remdups ks))"
proof -
  let ?w = "\<lparr>inst = new_FlatCache prs str options, disk = d, clock = t0\<rparr>"
  let ?c = "inst (run ?w calls)"
  have "inst_ok (inst ?w)"
    by (simp add: new_ok)
  then have "inst_ok ?c"
    by (rule run_ok)
  then have wf: "wf_lru (lruCache ?c)"
    by (simp add: inst_ok_def)
  have cap: "capacity (lruCache ?c) = (case opt_inMemoryLruSize options of Some n \<Rightarrow> n | None \<Rightarrow> 1000)"
    by (simp add: run_capacity new_capacity)
  have store: "cache (fc_set ?c now k v ttl) = mem_set (cache ?c) now k v ttl"
    "fst (fc_get ?c now k) = mem_get (cache ?c) now k"
    "cache (snd (fc_get ?c now k)) = cache ?c"
    by (simp_all add: fc_set_def fc_get_def scheduleBatchWrite_fields Let_def split: option.splits)
  show ?thesis
    unfolding Let_def
    using cap store wf_facts [OF wf] wf_touch(2) [OF wf] touches_from_new [of cap ks]
    by blast
qed

text \<open>
  With capacity 2, after \<open>set\<close> of \<open>a\<close>, \<open>b\<close> and \<open>c\<close> the tracker has dropped
  \<open>a\<close>; \<open>get("a")\<close> still returns its value, and \<open>a\<close> is tracked again.
\<close>

lemma evicted_key_still_served:
  "lru_keys (lruCache (inst evicting_run)) = [''c'', ''b''] \<and>
   \<not> has (lruCache (inst evicting_run)) ''a'' \<and>
   fst (fc_get (inst evicting_run) 9 ''a'') = Some 1 \<and>
   lru_keys (lruCache (snd (fc_get (inst evicting_run) 9 ''a''))) = [''a'', ''c'']"
  by (simp add: evicting_run_def run_def example_defs eval_defs fc_get_def mem_get_def has_def
      lru_keys_def moveToFront_def)

subsection \<open>save, then load into a fresh instance\<close>

lemma alist_update_new: "k \<notin> fst ` set al \<Longrightarrow> AList.update k v al = al @ [(k, v)]"
  by (induction al) auto

lemma foldl_set_expire_entries:
  assumes "distinct (map fst (mem_entries m @ es))"
    and "mem_capacity m = 0 \<or> length (mem_entries m) + length es \<le> mem_capacity m"
  shows "mem_entries (foldl (\<lambda>m it. mem_set_expire m (item_key it) (item_value it)
     (item_expires it)) m (map to_item es)) = mem_entries m @ es"
  using assms
proof (induction es arbitrary: m)
  case Nil
  show ?case by simp
next
  case (Cons x es)
  obtain k v e where x: "x = (k, v, e)" by (cases x)
  let ?m = "mem_set_expire m k v e"
  from Cons.prems(1) have "k \<notin> fst ` set (mem_entries m)"
    by (auto simp: x)
  moreover from Cons.prems(2)
  have "mem_capacity m = 0 \<or> length (mem_entries m) < mem_capacity m"
    by auto
  ultimately have es: "mem_entries ?m = mem_entries m @ [x]"
    by (simp add: mem_set_expire_def mem_store_room alist_update_new x)
  from Cons.prems(1) have d: "distinct (map fst (mem_entries ?m @ es))"
    by (simp add: es)
  have cap: "mem_capacity ?m = mem_capacity m"
    by (simp add: mem_set_expire_def)
  have len: "length (mem_entries ?m) = Suc (length (mem_entries m))"
    unfolding es by simp
  from Cons.prems(2)
  have "mem_capacity ?m = 0 \<or> length (mem_entries ?m) + length es \<le> mem_capacity ?m"
    unfolding cap len by auto
  from Cons.IH [OF d this] show ?case
    by (simp add: x to_item_def es)
qed

lemma mem_items_to_item:
  "mem_items m now = map to_item (filter (\<lambda>(k, v, e). \<not> hasExpired now e) (mem_entries m))"
  by (simp add: mem_items_def)

lemma hasExpired_mono: "ts \<le> t \<Longrightarrow> hasExpired ts e \<Longrightarrow> hasExpired t e"
  by (auto simp: hasExpired_def split: option.splits)

lemma mem_get_filter_live:
  "distinct (map fst es) \<Longrightarrow> ts \<le> t \<Longrightarrow>
   (case map_of (filter (\<lambda>(k, v, e). \<not> hasExpired ts e) es) k of
      None \<Rightarrow> None | Some (v, e) \<Rightarrow> if hasExpired t e then None else Some v) =
   (case map_of es k of
      None \<Rightarrow> None | Some (v, e) \<Rightarrow> if hasExpired t e then None else Some v)"
proof (induction es)
  case Nil
  show ?case by simp
next
  case (Cons x es)
  obtain k' v e where x: "x = (k', v, e)" by (cases x)
  show ?case
  proof (cases "k' = k")
    case True
    with Cons.prems have "k \<notin> fst ` set es" by (auto simp: x)
    then have "map_of (filter (\<lambda>(k, v, e). \<not> hasExpired ts e) es) k = None"
      by (auto simp: map_of_eq_None_iff)
    with True Cons.prems show ?thesis
      by (auto simp: x dest: hasExpired_mono)
  next
    case False
    with Cons show ?thesis by (simp add: x)
  qed
qed

lemma load_fresh:
  assumes fresh: "mem_entries (cache c0) = []"
    and on_disk: "map_of (files fs) (resolve (cacheDir c0 @ ''/'' @ cacheId c0)) = Some data"
    and dec: "parse c0 data = Inr (mem_items m ts)"
    and dist: "distinct (map fst (mem_entries m))"
    and room: "mem_capacity (cache c0) = 0 \<or> length (mem_items m ts) \<le> mem_capacity (cache c0)"
  shows "mem_entries (cache (load c0 fs None None)) =
           filter (\<lambda>(k, v, e). \<not> hasExpired ts e) (mem_entries m)"
proof -
  let ?es = "filter (\<lambda>(k, v, e). \<not> hasExpired ts e) (mem_entries m)"
  have "distinct (map fst ?es)"
    using dist by (rule distinct_map_filter)
  with fresh have "distinct (map fst (mem_entries (cache c0) @ ?es))"
    by simp
  moreover from room fresh
  have "mem_capacity (cache c0) = 0 \<or>
      length (mem_entries (cache c0)) + length ?es \<le> mem_capacity (cache c0)"
    by (simp add: mem_items_def)
  ultimately have "mem_entries (foldl (\<lambda>m it. mem_set_expire m (item_key it) (item_value it)
     (item_expires it)) (cache c0) (map to_item ?es)) = mem_entries (cache c0) @ ?es"
    by (rule foldl_set_expire_entries)
  with fresh on_disk dec show ?thesis
    by (simp add: load_def loadFile_def existsSync_def readFileSync_def mem_items_to_item Let_def)
qed

lemma run_append: "run w (cs @ ds) = run (run w cs) ds"
  by (simp add: run_def)

lemma run_simps: "run w [] = w" "run w (c # cs) = run (step w c) cs"
  by (simp_all add: run_def)

lemma fc_set_flags:
  "changesSinceLastSave (fc_set c now k v ttl)" "\<not> serializationCacheValid (fc_set c now k v ttl)"
  by (simp_all add: fc_set_def scheduleBatchWrite_fields)

lemma after_sets:
  assumes "xs \<noteq> []"
  shows "changesSinceLastSave (inst (run w (history @ set_calls xs))) \<and>
         \<not> serializationCacheValid (inst (run w (history @ set_calls xs)))"
proof -
  from assms obtain ys x where xs: "xs = ys @ [x]"
    by (cases xs rule: rev_cases) auto
  obtain dt k v ttl where x: "x = (dt, k, v, ttl)"
    by (cases x)
  have "set_calls xs = set_calls ys @ [Wait dt, Set k v ttl]"
    by (simp add: set_calls_def xs x)
  then show ?thesis
    by (simp add: run_append run_simps fc_set_flags flip: append_assoc)
qed

lemma save_try_writes:
  assumes "changesSinceLastSave c" "\<not> serializationCacheValid c"
    and "save_try c fs now False = Inr (c2, fs2)"
  shows "map_of (files fs2) (cacheFilePath c) = Some (stringify c (mem_items (cache c) now))"
    and "cache c2 = cache c"
  using assms
  by (auto simp: save_try_def Let_def flushPendingWrites_fields cacheFilePath_def emit_def
      writeFileSync_def mkdirSync_def AList.update_conv'
      split: option.splits sum.splits if_splits)

text \<open>
  C1, amended. Take an instance as the constructor builds it, any calls on it, and
  then a sequence of \<open>set\<close> calls that is not empty. If the \<open>save()\<close> that follows
  writes the file, then \<open>load()\<close> on a fresh instance with the same \<open>cacheId\<close>
  and \<open>cacheDir\<close>, whose codec reads the snapshot back and whose Memory Store has
  no capacity bound or one that the saved entries do not exceed, holds at any time
  from the save on the same live entries as the saved instance: the same \<open>items\<close>,
  the same \<open>all()\<close>, and \<open>get\<close> answers the same on every key. Entries that have
  expired by then show on neither side.
\<close>

theorem save_load_roundtrip:
  assumes sets: "xs \<noteq> []"
    and w1: "w1 = run \<lparr>inst = new_FlatCache prs str options, disk = d, clock = t0\<rparr>
                   (history @ set_calls xs)"
    and saved: "save_try (inst w1) (disk w1) (clock w1) False = Inr (c2, fs2)"
    and fresh: "c0 = new_FlatCache prs' str' options'"
      "cacheDir c0 = cacheDir (inst w1)" "cacheId c0 = cacheId (inst w1)"
    and codec: "parse c0 (stringify (inst w1) (items (inst w1) (clock w1))) =
                  Inr (items (inst w1) (clock w1))"
    and room: "mem_capacity (cache c0) = 0 \<or>
                 length (items (inst w1) (clock w1)) \<le> mem_capacity (cache c0)"
    and later: "clock w1 \<le> t"
  shows "save (inst w1) (disk w1) (clock w1) False = (c2, fs2) \<and>
         items (load c0 fs2 None None) t = items c2 t \<and>
         all_entries (load c0 fs2 None None) t = all_entries c2 t \<and>
         fst (fc_get (load c0 fs2 None None) t k) = fst (fc_get c2 t k)"
proof -
  let ?c1 = "inst w1"
  let ?ts = "clock w1"
  let ?live = "\<lambda>(k, v, e). \<not> hasExpired ?ts e"
  have ok: "inst_ok ?c1"
    unfolding w1 by (rule run_ok) (simp add: new_ok)
  then have dist: "distinct (map fst (mem_entries (cache ?c1)))"
    by (simp add: inst_ok_def)
  from after_sets [OF sets] have flags: "changesSinceLastSave ?c1" "\<not> serializationCacheValid ?c1"
    by (simp_all add: w1)
  note wr = save_try_writes [OF flags saved]
  have empty: "mem_entries (cache c0) = []"
    by (simp add: fresh(1) new_FlatCache_def startAutoPersist_def mem_new_def Let_def
        split: option.splits)
  have on_disk: "map_of (files fs2) (resolve (cacheDir c0 @ ''/'' @ cacheId c0)) =
      Some (stringify ?c1 (mem_items (cache ?c1) ?ts))"
    using wr(1) by (simp add: cacheFilePath_def fresh(2,3))
  have dec: "parse c0 (stringify ?c1 (mem_items (cache ?c1) ?ts)) = Inr (mem_items (cache ?c1) ?ts)"
    using codec by (simp add: items_def)
  have rm: "mem_capacity (cache c0) = 0 \<or>
      length (mem_items (cache ?c1) ?ts) \<le> mem_capacity (cache c0)"
    using room by (simp add: items_def)
  note ld = load_fresh [OF empty on_disk dec dist rm]
  have "filter (\<lambda>(k, v, e). \<not> hasExpired t e) (filter ?live (mem_entries (cache ?c1))) =
        filter (\<lambda>(k, v, e). \<not> hasExpired t e) (mem_entries (cache ?c1))"
    using later by (auto simp: filter_id_conv intro!: filter_cong dest: hasExpired_mono)
  then have its: "mem_items (cache (load c0 fs2 None None)) t = mem_items (cache c2) t"
    by (simp add: mem_items_def to_item_def ld wr(2))
  have get: "mem_get (cache (load c0 fs2 None None)) t k = mem_get (cache c2) t k"
    using mem_get_filter_live [OF dist later, of k] by (simp add: mem_get_def ld wr(2))
  show ?thesis
    using saved its get
    by (simp add: save_def items_def all_entries_def fc_get_def Let_def split: option.splits)
qed

text \<open>
  C1, as the claim states it, fails on the empty sequence of \<open>set\<close> calls: \<open>save\<close>
  writes only when the dirty flag is set. After \<open>set("a", 1)\<close>, \<open>save()\<close>,
  \<open>removeCacheFile()\<close> the instance holds \<open>a\<close> and is clean; the \<open>save()\<close> that
  follows writes nothing, and a fresh instance loads nothing. It fails as well where
  the fresh instance has a Memory Store too small for the saved entries: of the
  saved \<open>a\<close> and \<open>b\<close>, a store that holds one entry keeps \<open>b\<close> only.
\<close>

theorem save_is_gated_counterexample:
  "keys (inst unsaved_run) 0 = [''a''] \<and>
   files (disk unsaved_run) = [] \<and>
   keys (load example_cache (disk unsaved_run) None None) 0 = [] \<and>
   keys (fst (save (inst roundtrip_run) (disk roundtrip_run) 0 False)) 0 = [''a'', ''b''] \<and>
   keys (load bounded_cache (snd (save (inst roundtrip_run) (disk roundtrip_run) 0 False))
           None None) 0 = [''b'']"
  by (simp add: unsaved_run_def roundtrip_run_def set_calls_def bounded_cache_def run_simps
      example_defs eval_defs run_defs load_def removeCacheFile_def rmSync_def eval_nat_numeral)

lemmas roundtrip_defs = roundtrip_run_def set_calls_def run_simps

theorem save_load_roundtrip_witness:
  "files (snd (save (inst roundtrip_run) (disk roundtrip_run) 0 False)) =
     [(''.cache/cache1'', ''a:1:-;b:11:11111;'')] \<and>
   items (fst (save (inst roundtrip_run) (disk roundtrip_run) 0 False)) 7 =
     [\<lparr>item_key = ''a'', item_value = 1, item_expires = None\<rparr>] \<and>
   items (load example_cache (snd (save (inst roundtrip_run) (disk roundtrip_run) 0 False)) None None) 7 =
     items (fst (save (inst roundtrip_run) (disk roundtrip_run) 0 False)) 7 \<and>
   fst (fc_get (load example_cache (snd (save (inst roundtrip_run) (disk roundtrip_run) 0 False))
          None None) 7 ''b'') =
     fst (fc_get (fst (save (inst roundtrip_run) (disk roundtrip_run) 0 False)) 7 ''b'')"
proof -
  let ?c1 = "inst roundtrip_run"
  let ?S = "save ?c1 (disk roundtrip_run) 0 False"
  have sets: "[(0, ''a'', 1, None), (0, ''b'', 2, Some 5)] \<noteq> ([] :: (nat \<times> key \<times> nat \<times> nat option) list)"
    by simp
  have clk: "clock roundtrip_run = 0"
    by (simp add: roundtrip_defs)
  have saved: "save_try ?c1 (disk roundtrip_run) (clock roundtrip_run) False = Inr (fst ?S, snd ?S)"
    by (simp add: clk) (simp add: roundtrip_defs example_defs eval_defs)
  have fresh: "example_cache = new_FlatCache example_parse example_stringify example_options"
    "cacheDir example_cache = cacheDir ?c1" "cacheId example_cache = cacheId ?c1"
    by (simp_all add: roundtrip_defs example_defs eval_defs)
  have codec: "parse example_cache (stringify ?c1 (items ?c1 (clock roundtrip_run))) =
      Inr (items ?c1 (clock roundtrip_run))"
    by (simp add: clk) (simp add: roundtrip_defs example_defs eval_defs run_defs eval_nat_numeral)
  have room: "mem_capacity (cache example_cache) = 0 \<or>
      length (items ?c1 (clock roundtrip_run)) \<le> mem_capacity (cache example_cache)"
    by (simp add: example_defs mem_capacity_def)
  have later: "clock roundtrip_run \<le> 7"
    by (simp add: clk)
  have written: "files (snd ?S) = [(''.cache/cache1'', ''a:1:-;b:11:11111;'')]"
    by (simp add: roundtrip_defs example_defs eval_defs eval_nat_numeral)
  have kept: "items (fst ?S) 7 = [\<lparr>item_key = ''a'', item_value = 1, item_expires = None\<rparr>]"
    by (simp add: roundtrip_defs example_defs eval_defs run_defs)
  show ?thesis
    using written kept
      save_load_roundtrip [OF sets roundtrip_run_def saved fresh codec room later, of "''b''"]
    by (simp add: clk)
qed

end
